theory Spec2Isabelle
  imports Complex_Main
begin

section \<open>JavaScript values\<close>

text \<open>
  The visual is TypeScript. A JavaScript \<open>number\<close> is modelled as a real number together
  with the three values that are not real numbers; rounding of the floating-point
  arithmetic is not modelled. An access to a property of \<open>undefined\<close> throws a
  \<open>TypeError\<close>, which is the only exception the modelled code can throw.
\<close>

datatype number = Num real | NaN | PosInf | NegInf

datatype error = TypeError

text \<open>Reading \<open>xs[i]\<close>: \<open>None\<close> is \<open>undefined\<close>, for every index outside the array.\<close>

definition at_index :: "'a list \<Rightarrow> int \<Rightarrow> 'a option" where
  "at_index xs i = (if 0 \<le> i \<and> i < int (length xs) then Some (xs ! nat i) else None)"

text \<open>
  The arithmetic the visual does on values that need not be real numbers. \<open>x / y\<close> on
  real numbers leaves the reals only for \<open>y = 0\<close>; a square root of a negative number is
  \<open>NaN\<close>; every comparison with \<open>NaN\<close> is false.
\<close>

definition number_div :: "real \<Rightarrow> real \<Rightarrow> number" where
  "number_div x y =
     (if y \<noteq> 0 then Num (x / y) else if x > 0 then PosInf else if x < 0 then NegInf else NaN)"

fun number_sqrt :: "number \<Rightarrow> number" where
  "number_sqrt (Num x) = (if x < 0 then NaN else Num (sqrt x))"
| "number_sqrt NaN = NaN"
| "number_sqrt PosInf = PosInf"
| "number_sqrt NegInf = NaN"

fun number_times :: "real \<Rightarrow> number \<Rightarrow> number" where
  "number_times a (Num x) = Num (a * x)"
| "number_times a NaN = NaN"
| "number_times a PosInf = (if a > 0 then PosInf else if a < 0 then NegInf else NaN)"
| "number_times a NegInf = (if a > 0 then NegInf else if a < 0 then PosInf else NaN)"

fun number_plus :: "real \<Rightarrow> number \<Rightarrow> number" where
  "number_plus a (Num x) = Num (a + x)"
| "number_plus a NaN = NaN"
| "number_plus a PosInf = PosInf"
| "number_plus a NegInf = NegInf"

fun number_minus :: "real \<Rightarrow> number \<Rightarrow> number" where
  "number_minus a (Num x) = Num (a - x)"
| "number_minus a NaN = NaN"
| "number_minus a PosInf = NegInf"
| "number_minus a NegInf = PosInf"

text \<open>\<open>a < y\<close> and \<open>a > y\<close> for a \<open>number\<close> \<open>a\<close> and a real \<open>y\<close>.\<close>

fun number_less :: "number \<Rightarrow> real \<Rightarrow> bool" where
  "number_less (Num a) y = (a < y)"
| "number_less NaN y = False"
| "number_less PosInf y = False"
| "number_less NegInf y = True"

fun number_greater :: "number \<Rightarrow> real \<Rightarrow> bool" where
  "number_greater (Num a) y = (a > y)"
| "number_greater NaN y = False"
| "number_greater PosInf y = True"
| "number_greater NegInf y = False"

section \<open>The d2 constant table\<close>

text \<open>\<open>LookUpd2\<close> of the moving-range version of the visual.\<close>

definition d2Array :: "real list" where
  "d2Array = [1,
    1.128, 1.693, 2.059, 2.326, 2.534, 2.704, 2.847, 2.97, 3.078, 3.173,
    3.258, 3.336, 3.407, 3.472, 3.532, 3.588, 3.64, 3.689, 3.735, 3.778,
    3.819, 3.858, 3.895, 3.931, 3.964, 3.997, 4.027, 4.057, 4.086, 4.113,
    4.139, 4.165, 4.189, 4.213, 4.236, 4.259, 4.28, 4.301, 4.322, 4.341,
    4.361, 4.379, 4.398, 4.415, 4.433, 4.45, 4.466, 4.482, 4.498]"

text \<open>
  \<open>if (mr > 0) return d2Array[mr - 1]; else return 1;\<close>
  The result is \<open>None\<close> (\<open>undefined\<close>) when \<open>mr - 1\<close> is beyond the array.
\<close>

definition LookUpd2 :: "int \<Rightarrow> real option" where
  "LookUpd2 mr = (if mr > 0 then at_index d2Array (mr - 1) else Some 1)"

section \<open>Data model\<close>

text \<open>
  \<open>ChartDataPoint\<close>: the position and the value of one point. \<open>visualTransform\<close> fills
  the two fields with whatever the data view holds, so their types are parameters. The
  functions that compute stages, limits and rules are modelled on numbers: positions are
  numbers or dates, of which only \<open>valueOf()\<close> is used, a number in both cases. The field
  \<open>MRSum\<close> of the moving-range version is written once and never read, it is left out.
\<close>

record ('x, 'y) DataPoint =
  xValue :: 'x
  yValue :: 'y

type_synonym ChartDataPoint = "(real, real) DataPoint"

text \<open>
  \<open>Stage\<close>: the fields that the two versions of the visual share. The moving-range
  version adds \<open>mRError\<close>, the standard-deviation version adds \<open>sd\<close>. The field
  \<open>sum\<close> of the source is \<open>sumY\<close> here. The limits are results of divisions and square
  roots, so they are of type \<open>number\<close>; \<open>mean\<close> and \<open>sum\<close> are only ever assigned
  real numbers.
\<close>

record Stage =
  lCL :: number
  uCL :: number
  mean :: real
  startX :: real
  endX :: real
  sumY :: real
  count :: nat
  stage :: string
  stageDividerX :: real
  firstId :: nat
  lastId :: nat

record Stage_MR = Stage +
  mRError :: bool

record Stage_SD = Stage +
  sd :: number

section \<open>Stage segmentation\<close>

text \<open>
  \<open>GetStages\<close>. The function is the same in both versions up to the extra field of the
  stage record, which is the parameter \<open>ext\<close>, so the loop is modelled once. The stage
  column is a text column with one entry per data point: a row is a data point with its
  label, and \<open>hasStages\<close> says whether the data view has a stage column at all. On
  strings \<open>==\<close> (moving-range version) and \<open>===\<close> (standard-deviation version) agree and
  \<open>toString()\<close> is the identity.

  \<open>close_stage\<close> is the object literal pushed to \<open>stages\<close>: a copy of the accumulator
  with limits 0, the given divider and the given last index.
\<close>

definition close_stage :: "'a \<Rightarrow> 'a Stage_scheme \<Rightarrow> real \<Rightarrow> nat \<Rightarrow> 'a Stage_scheme" where
  "close_stage ext st divider lst =
     \<lparr>lCL = Num 0, uCL = Num 0, mean = mean st, startX = startX st, endX = endX st,
      sumY = sumY st, count = count st, stage = stage st, stageDividerX = divider,
      firstId = firstId st, lastId = lst, \<dots> = ext\<rparr>"

text \<open>\<open>if (stage.count > 0) stage.mean = stage.sum / stage.count;\<close>\<close>

definition set_mean :: "'a Stage_scheme \<Rightarrow> 'a Stage_scheme" where
  "set_mean st = (if count st > 0 then st\<lparr>mean := sumY st / real (count st)\<rparr> else st)"

text \<open>
  The loop body for index \<open>i\<close>; \<open>prev\<close> is \<open>dataPoints[i - 1]\<close>, which is \<open>undefined\<close>
  for \<open>i = 0\<close>, and \<open>n\<close> is \<open>dataPoints.length\<close>.
\<close>

fun GetStages_loop ::
  "'a \<Rightarrow> bool \<Rightarrow> nat \<Rightarrow> nat \<Rightarrow> ChartDataPoint option \<Rightarrow> (ChartDataPoint \<times> string) list \<Rightarrow>
   string \<Rightarrow> 'a Stage_scheme \<Rightarrow> 'a Stage_scheme list \<Rightarrow> error + 'a Stage_scheme list" where
  "GetStages_loop ext hasStages n i prev [] currentStage st stages = Inr stages"
| "GetStages_loop ext hasStages n i prev ((obj, label) # rest) currentStage st stages =
     (let stageValue = (if hasStages then label else [])
      in case (if currentStage = stageValue \<or> \<not> hasStages
               then Inr (st\<lparr>sumY := sumY st + yValue obj, count := count st + 1\<rparr>, stages)
               else (case prev of
                       None \<Rightarrow> Inl TypeError
                     | Some endPoint \<Rightarrow>
                         let st1 = (set_mean st)\<lparr>endX := xValue endPoint\<rparr>;
                             st2 = st1\<lparr>stageDividerX := (xValue obj + xValue endPoint) / 2\<rparr>
                         in Inr (st2\<lparr>mean := yValue obj, count := 1, sumY := yValue obj,
                                     startX := xValue obj, firstId := i, stage := stageValue\<rparr>,
                                 stages @ [close_stage ext st2 (stageDividerX st2) (i - 1)])))
         of Inl e \<Rightarrow> Inl e
          | Inr (st', stages') \<Rightarrow>
              let currentStage' = (if hasStages then label else currentStage)
              in if i = n - 1
                 then (let st3 = (set_mean st')\<lparr>endX := xValue obj, stage := stageValue\<rparr>
                       in GetStages_loop ext hasStages n (Suc i) (Some obj) rest currentStage' st3
                            (stages' @ [close_stage ext st3 (endX st3) i]))
                 else GetStages_loop ext hasStages n (Suc i) (Some obj) rest currentStage' st' stages')"

text \<open>
  The accumulator starts from zeros; \<open>startX\<close> and \<open>endX\<close> start as \<open>null\<close> (here 0) and
  are assigned before any stage is pushed. Reading \<open>dataPoints[0].xValue\<close> throws when
  there is no data point.
\<close>

definition GetStages_gen :: "'a \<Rightarrow> bool \<Rightarrow> (ChartDataPoint \<times> string) list \<Rightarrow> error + 'a Stage_scheme list" where
  "GetStages_gen ext hasStages rows =
     (case rows of
        [] \<Rightarrow> Inl TypeError
      | (p0, label0) # _ \<Rightarrow>
          let stageValue = (if hasStages then label0 else [])
          in GetStages_loop ext hasStages (length rows) 0 None rows stageValue
               \<lparr>lCL = Num 0, uCL = Num 0, mean = 0, startX = xValue p0, endX = 0, sumY = 0,
                count = 0, stage = stageValue, stageDividerX = 0, firstId = 0, lastId = 0,
                \<dots> = ext\<rparr> [])"

text \<open>The two versions: every stage starts with \<open>mRError: false\<close>, respectively \<open>sd: 0\<close>.\<close>

definition GetStages :: "bool \<Rightarrow> (ChartDataPoint \<times> string) list \<Rightarrow> error + Stage_MR list" where
  "GetStages = GetStages_gen (Stage_MR.fields False)"

definition GetStages_SD :: "bool \<Rightarrow> (ChartDataPoint \<times> string) list \<Rightarrow> error + Stage_SD list" where
  "GetStages_SD = GetStages_gen (Stage_SD.fields (Num 0))"

section \<open>View model\<close>

text \<open>
  \<open>ControlChartViewModel\<close>, without the fields that only carry colours, line styles,
  label sizes and format strings to the drawing code. The fields the two versions share
  come first; \<open>mRError\<close> of the view model is \<open>vm_mRError\<close> here. The type of the
  data points is a parameter: \<open>visualTransform\<close> stores the values of the data view as
  they are, the other functions compute with numbers.
\<close>

record 'p ControlChartViewModel =
  dataPoints :: "'p list"
  runRule1 :: bool
  runRule2 :: bool
  runRule3 :: bool

record 'p ViewModel_MR = "'p ControlChartViewModel" +
  standardDeviations :: real
  movingRange :: int
  vm_mRError :: bool

record 'p ViewModel_SD = "'p ControlChartViewModel" +
  standardDeviation :: real
  useSDSubGroups :: bool

text \<open>
  The indices of a stage, as every loop \<open>for (let j = stages[i].firstId; j <= stages[i].lastId; j++)\<close>
  visits them.
\<close>

definition stage_indices :: "'a Stage_scheme \<Rightarrow> nat list" where
  "stage_indices s = [firstId s ..< Suc (lastId s)]"

section \<open>Line segments\<close>

text \<open>
  The objects pushed to \<open>meanLine\<close>, \<open>uclLines\<close> and \<open>lclLines\<close>, and those pushed to
  \<open>stageDividers\<close> (whose \<open>x1\<close> is \<open>dividerX\<close> here). \<open>Chart\<close> holds what \<open>CalcStats\<close>
  leaves in the fields of the visual.
\<close>

record Line =
  x1 :: real
  y1 :: number
  x2 :: real
  y2 :: number

record Divider =
  dividerX :: real
  prevDividerX :: real
  stageName :: string

record 'st Chart =
  chartStages :: "'st list"
  meanLine :: "Line list"
  uclLines :: "Line list"
  lclLines :: "Line list"
  stageDividers :: "Divider list"

text \<open>
  The pushes at the end of a loop iteration, for the stage \<open>s\<close> after its update and the
  stage \<open>prev\<close> before it (\<open>stages[i - 1]\<close>, absent for \<open>i = 0\<close>): the segments start at the
  previous divider, or at \<open>startX\<close> for the first stage.
\<close>

definition segment_start :: "'a Stage_scheme option \<Rightarrow> 'a Stage_scheme \<Rightarrow> real" where
  "segment_start prev s = (case prev of None \<Rightarrow> startX s | Some p \<Rightarrow> stageDividerX p)"

definition mean_segment :: "'a Stage_scheme option \<Rightarrow> 'a Stage_scheme \<Rightarrow> Line" where
  "mean_segment prev s =
     \<lparr>x1 = segment_start prev s,
      y1 = Num (case prev of None \<Rightarrow> mean s | Some p \<Rightarrow> mean p),
      x2 = stageDividerX s, y2 = Num (mean s)\<rparr>"

definition limit_segment :: "'a Stage_scheme option \<Rightarrow> 'a Stage_scheme \<Rightarrow> number \<Rightarrow> Line" where
  "limit_segment prev s y = \<lparr>x1 = segment_start prev s, y1 = y, x2 = stageDividerX s, y2 = y\<rparr>"

definition divider_of :: "'a Stage_scheme option \<Rightarrow> 'a Stage_scheme \<Rightarrow> Divider" where
  "divider_of prev s =
     \<lparr>dividerX = stageDividerX s, prevDividerX = segment_start prev s, stageName = stage s\<rparr>"

section \<open>Control limits from the moving range\<close>

text \<open>
  \<open>CalcStats\<close> of the moving-range version. \<open>window_loop\<close> is the loop over \<open>k\<close>, from
  \<open>j\<close> down to \<open>j - mr + 1\<close>, with the number of iterations left; \<open>mr_loop\<close> is the loop
  over \<open>j\<close>, from \<open>firstId + mr - 1\<close> up to \<open>lastId\<close>.
\<close>

fun window_loop :: "ChartDataPoint list \<Rightarrow> int \<Rightarrow> nat \<Rightarrow> real \<times> real \<Rightarrow> error + real \<times> real" where
  "window_loop data k 0 (mrMin, mrMax) = Inr (mrMin, mrMax)"
| "window_loop data k (Suc r) (mrMin, mrMax) =
     (case at_index data k of
        None \<Rightarrow> Inl TypeError
      | Some q \<Rightarrow>
          window_loop data (k - 1) r
            (if mrMin > yValue q then yValue q else mrMin,
             if mrMax < yValue q then yValue q else mrMax))"

fun mr_loop :: "ChartDataPoint list \<Rightarrow> int \<Rightarrow> int \<Rightarrow> nat \<Rightarrow> real \<Rightarrow> error + real" where
  "mr_loop data mr j 0 mrRangeSum = Inr mrRangeSum"
| "mr_loop data mr j (Suc r) mrRangeSum =
     (case at_index data (j - 1) of
        None \<Rightarrow> Inl TypeError
      | Some p \<Rightarrow>
          (case window_loop data j (nat mr) (yValue p, yValue p) of
             Inl e \<Rightarrow> Inl e
           | Inr (mrMin, mrMax) \<Rightarrow> mr_loop data mr (j + 1) r (mrRangeSum + \<bar>mrMax - mrMin\<bar>)))"

text \<open>
  The limit \<open>mean \<plusminus> numsds * rBar / d2\<close>; with \<open>d2\<close> undefined the quotient is \<open>NaN\<close>.
\<close>

definition mr_offset :: "real \<Rightarrow> real \<Rightarrow> real option \<Rightarrow> number" where
  "mr_offset numsds rBar d2 = (case d2 of None \<Rightarrow> NaN | Some d \<Rightarrow> number_div (numsds * rBar) d)"

text \<open>The first half of the loop body: the limits of one stage, or its error flag.\<close>

definition calc_stage :: "ChartDataPoint ViewModel_MR \<Rightarrow> Stage_MR \<Rightarrow> error + Stage_MR" where
  "calc_stage vm s =
     (let mr = movingRange vm; d2 = LookUpd2 (movingRange vm)
      in if mr > int (count s)
         then Inr (s\<lparr>mRError := True\<rparr>)
         else (case mr_loop (dataPoints vm) mr (int (firstId s) + mr - 1)
                      (nat (int (lastId s) - (int (firstId s) + mr - 1) + 1)) 0 of
                 Inl e \<Rightarrow> Inl e
               | Inr mrRangeSum \<Rightarrow>
                   let rBar = mrRangeSum / real_of_int (int (count s) - mr + 1)
                   in Inr (s\<lparr>uCL := number_plus (mean s) (mr_offset (standardDeviations vm) rBar d2),
                             lCL := number_minus (mean s) (mr_offset (standardDeviations vm) rBar d2)\<rparr>)))"

text \<open>
  The loop over the stages. \<open>flag\<close> is \<open>viewModel.mRError\<close>. The variables \<open>uCL\<close> and
  \<open>lCL\<close> are read only when the stage has no error flag, and then they were assigned in
  the same iteration the values stored in the stage.
\<close>

fun CalcStats_loop ::
  "ChartDataPoint ViewModel_MR \<Rightarrow> Stage_MR option \<Rightarrow> Stage_MR list \<Rightarrow> bool \<times> Stage_MR Chart \<Rightarrow>
   error + bool \<times> Stage_MR Chart" where
  "CalcStats_loop vm prev [] (flag, ch) = Inr (flag, ch)"
| "CalcStats_loop vm prev (s # rest) (flag, ch) =
     (case calc_stage vm s of
        Inl e \<Rightarrow> Inl e
      | Inr s' \<Rightarrow>
          CalcStats_loop vm (Some s') rest
            (flag \<or> movingRange vm > int (count s),
             \<lparr>chartStages = chartStages ch @ [s'],
              meanLine = meanLine ch @ [mean_segment prev s'],
              uclLines = (if \<not> mRError s' then uclLines ch @ [limit_segment prev s' (uCL s')]
                          else uclLines ch),
              lclLines = (if \<not> mRError s' then lclLines ch @ [limit_segment prev s' (lCL s')]
                          else lclLines ch),
              stageDividers = stageDividers ch @ [divider_of prev s']\<rparr>))"

definition CalcStats :: "ChartDataPoint ViewModel_MR \<Rightarrow> Stage_MR list \<Rightarrow> error + ChartDataPoint ViewModel_MR \<times> Stage_MR Chart" where
  "CalcStats vm stages =
     (case CalcStats_loop vm None stages
             (vm_mRError vm,
              \<lparr>chartStages = [], meanLine = [], uclLines = [], lclLines = [], stageDividers = []\<rparr>) of
        Inl e \<Rightarrow> Inl e
      | Inr (flag, ch) \<Rightarrow> Inr (vm\<lparr>vm_mRError := flag\<rparr>, ch))"

section \<open>Control limits from the standard deviation\<close>

text \<open>
  \<open>SubGroup\<close>, with the prefix \<open>sg_\<close> on its fields, and \<open>findIndexByKeyValue\<close>, which
  is only called with the key \<open>"stage"\<close>: the first index whose stage is the value, or
  \<open>null\<close>.
\<close>

record SubGroup =
  sg_mean :: real
  sg_sum :: real
  sg_count :: nat
  sg_stage :: string

fun findIndexByKeyValue :: "SubGroup list \<Rightarrow> string \<Rightarrow> nat option" where
  "findIndexByKeyValue [] valuetosearch = None"
| "findIndexByKeyValue (g # gs) valuetosearch =
     (if sg_stage g = valuetosearch then Some 0
      else map_option Suc (findIndexByKeyValue gs valuetosearch))"

text \<open>
  \<open>GetUnique\<close>. The object \<open>unique\<close> is created as \<open>{}\<close>, so \<open>unique[key]\<close> is defined
  for the keys assigned so far and for the property names that every object inherits;
  for one of the latter \<open>findIndexByKeyValue\<close> returns \<open>null\<close> and \<open>distinct[null].sum\<close>
  throws. The array \<open>distinct\<close> is \<open>groups\<close> here.
\<close>

definition inherited_keys :: "string list" where
  "inherited_keys =
     [''constructor'', ''toString'', ''toLocaleString'', ''valueOf'', ''hasOwnProperty'',
      ''isPrototypeOf'', ''propertyIsEnumerable'', ''__proto__'', ''__defineGetter__'',
      ''__defineSetter__'', ''__lookupGetter__'', ''__lookupSetter__'']"

fun GetUnique_loop :: "string list \<Rightarrow> Stage_SD list \<Rightarrow> SubGroup list \<Rightarrow> error + SubGroup list" where
  "GetUnique_loop unique [] groups = Inr groups"
| "GetUnique_loop unique (s # src) groups =
     (if stage s \<notin> set unique \<and> stage s \<notin> set inherited_keys
      then GetUnique_loop (stage s # unique) src
             (groups @ [\<lparr>sg_mean = mean s, sg_sum = sumY s, sg_count = count s, sg_stage = stage s\<rparr>])
      else (case findIndexByKeyValue groups (stage s) of
              None \<Rightarrow> Inl TypeError
            | Some index \<Rightarrow>
                let g = groups ! index;
                    g1 = g\<lparr>sg_sum := sg_sum g + sumY s, sg_count := sg_count g + count s\<rparr>;
                    g2 = (if sg_count g1 > 0
                          then g1\<lparr>sg_mean := sg_sum g1 / real (sg_count g1)\<rparr> else g1)
                in GetUnique_loop (stage s # unique) src (groups[index := g2])))"

definition GetUnique :: "Stage_SD list \<Rightarrow> error + SubGroup list" where
  "GetUnique src = GetUnique_loop [] src []"

text \<open>
  The loop over \<open>j\<close> of the first loop of \<open>CalcStats\<close>: \<open>sumdiffsqrd\<close> and, with
  subgroups, the field \<open>sum\<close> of the subgroup both grow by the square of each difference.
\<close>

fun sumdiff_loop ::
  "ChartDataPoint list \<Rightarrow> real \<Rightarrow> nat list \<Rightarrow> real \<times> real \<Rightarrow> error + real \<times> real" where
  "sumdiff_loop data m [] (sumdiffsqrd, gsum) = Inr (sumdiffsqrd, gsum)"
| "sumdiff_loop data m (j # js) (sumdiffsqrd, gsum) =
     (case at_index data (int j) of
        None \<Rightarrow> Inl TypeError
      | Some obj \<Rightarrow>
          let diff = yValue obj - m
          in sumdiff_loop data m js (sumdiffsqrd + diff * diff, gsum + diff * diff))"

text \<open>
  The body of the first loop. With subgroups the stage takes count, sum and mean of its
  subgroup, and the squares are added to the field \<open>sum\<close> of the subgroup as it is;
  without, the sum of the squares replaces the field \<open>sum\<close> of the stage.
\<close>

definition sd_first ::
  "ChartDataPoint ViewModel_SD \<Rightarrow> Stage_SD \<Rightarrow> SubGroup list \<Rightarrow> error + Stage_SD \<times> SubGroup list" where
  "sd_first vm s subGroups =
     (if useSDSubGroups vm
      then (case findIndexByKeyValue subGroups (stage s) of
              None \<Rightarrow> Inl TypeError
            | Some index \<Rightarrow>
                let g = subGroups ! index;
                    s1 = s\<lparr>count := sg_count g, sumY := sg_sum g, mean := sg_mean g\<rparr>
                in (case sumdiff_loop (dataPoints vm) (mean s1) (stage_indices s1) (0, sg_sum g) of
                      Inl e \<Rightarrow> Inl e
                    | Inr (sumdiffsqrd, gsum) \<Rightarrow> Inr (s1, subGroups[index := g\<lparr>sg_sum := gsum\<rparr>])))
      else (case sumdiff_loop (dataPoints vm) (mean s) (stage_indices s) (0, 0) of
              Inl e \<Rightarrow> Inl e
            | Inr (sumdiffsqrd, gsum) \<Rightarrow> Inr (s\<lparr>sumY := sumdiffsqrd\<rparr>, subGroups)))"

fun sd_first_loop ::
  "ChartDataPoint ViewModel_SD \<Rightarrow> Stage_SD list \<Rightarrow> Stage_SD list \<times> SubGroup list \<Rightarrow>
   error + Stage_SD list \<times> SubGroup list" where
  "sd_first_loop vm [] (acc, subGroups) = Inr (acc, subGroups)"
| "sd_first_loop vm (s # rest) (acc, subGroups) =
     (case sd_first vm s subGroups of
        Inl e \<Rightarrow> Inl e
      | Inr (s', subGroups') \<Rightarrow> sd_first_loop vm rest (acc @ [s'], subGroups'))"

text \<open>
  The standard deviation from \<open>sum\<close> and \<open>count\<close>:
  \<open>if (count > 8) sd = Math.sqrt(sum / count); else sd = Math.sqrt(sum / (count - 1));\<close>
\<close>

definition sd_of :: "real \<Rightarrow> nat \<Rightarrow> number" where
  "sd_of sm cnt =
     (if cnt > 8 then number_sqrt (number_div sm (real cnt))
      else number_sqrt (number_div sm (real cnt - 1)))"

text \<open>The first half of the body of the second loop: the limits of one stage.\<close>

definition sd_second ::
  "ChartDataPoint ViewModel_SD \<Rightarrow> SubGroup list \<Rightarrow> Stage_SD \<Rightarrow> error + Stage_SD" where
  "sd_second vm subGroups s =
     (case (if useSDSubGroups vm
            then (case findIndexByKeyValue subGroups (stage s) of
                    None \<Rightarrow> Inl TypeError
                  | Some index \<Rightarrow>
                      Inr (sg_sum (subGroups ! index), sg_count (subGroups ! index),
                           sg_mean (subGroups ! index)))
            else Inr (sumY s, count s, mean s)) of
        Inl e \<Rightarrow> Inl e
      | Inr (sm, cnt, mn) \<Rightarrow>
          Inr (s\<lparr>uCL := number_plus mn (number_times (standardDeviation vm) (sd_of sm cnt)),
                lCL := number_minus mn (number_times (standardDeviation vm) (sd_of sm cnt)),
                sd := sd_of sm cnt\<rparr>))"

fun sd_second_loop ::
  "ChartDataPoint ViewModel_SD \<Rightarrow> SubGroup list \<Rightarrow> Stage_SD option \<Rightarrow> Stage_SD list \<Rightarrow>
   Stage_SD Chart \<Rightarrow> error + Stage_SD Chart" where
  "sd_second_loop vm subGroups prev [] ch = Inr ch"
| "sd_second_loop vm subGroups prev (s # rest) ch =
     (case sd_second vm subGroups s of
        Inl e \<Rightarrow> Inl e
      | Inr s' \<Rightarrow>
          sd_second_loop vm subGroups (Some s') rest
            \<lparr>chartStages = chartStages ch @ [s'],
             meanLine = meanLine ch @ [mean_segment prev s'],
             uclLines = uclLines ch @ [limit_segment prev s' (uCL s')],
             lclLines = lclLines ch @ [limit_segment prev s' (lCL s')],
             stageDividers = stageDividers ch @ [divider_of prev s']\<rparr>)"

definition CalcStats_SD :: "ChartDataPoint ViewModel_SD \<Rightarrow> Stage_SD list \<Rightarrow> error + Stage_SD Chart" where
  "CalcStats_SD vm stages =
     (case (if useSDSubGroups vm then GetUnique stages else Inr []) of
        Inl e \<Rightarrow> Inl e
      | Inr subGroups \<Rightarrow>
          (case sd_first_loop vm stages ([], subGroups) of
             Inl e \<Rightarrow> Inl e
           | Inr (stages1, subGroups1) \<Rightarrow>
               sd_second_loop vm subGroups1 None stages1
                 \<lparr>chartStages = [], meanLine = [], uclLines = [], lclLines = [],
                  stageDividers = []\<rparr>))"

section \<open>From the data view to the view model\<close>

text \<open>
  The values of a data view column, and the data view as far as \<open>visualTransform\<close> reads
  it: \<open>None\<close> is an absent (\<open>undefined\<close>) property. \<open>DataViewObjects\<close> holds the
  properties of \<open>metadata.objects\<close> that decide limits and rules. The property
  \<open>values\<close> of the categorical data view is \<open>value_columns\<close>, the property \<open>values\<close> of
  a column is \<open>category_values\<close> or \<open>column_values\<close>.
\<close>

datatype PrimitiveValue = PNumber real | PDate real | PString string | PBoolean bool | PNull

type_synonym RawDataPoint = "(PrimitiveValue, PrimitiveValue) DataPoint"

record DataViewCategoryColumn =
  source :: "string option"
  category_values :: "PrimitiveValue list"

record DataViewValueColumn =
  column_values :: "PrimitiveValue list"

record DataViewCategorical =
  categories :: "DataViewCategoryColumn list option"
  value_columns :: "DataViewValueColumn list option"

record DataViewObjects =
  obj_standardDeviations :: "real option"
  obj_standardDeviation :: "real option"
  obj_movingRange :: "real option"
  obj_useSDSubGroups :: "bool option"
  obj_runRule1 :: "bool option"
  obj_runRule2 :: "bool option"
  obj_runRule3 :: "bool option"

record DataView =
  categorical :: "DataViewCategorical option"
  objects :: DataViewObjects

text \<open>
  Modelled from the spec: \<open>getValue\<close>, imported by the visual and not part of its source.
  The configuration is "resolved with defaults": the stored property, or the default
  when there is none.
\<close>

definition getValue :: "'a option \<Rightarrow> 'a \<Rightarrow> 'a" where
  "getValue property defaultValue = (case property of None \<Rightarrow> defaultValue | Some v \<Rightarrow> v)"

text \<open>A value in a condition, and the two tests on \<open>Object.prototype.toString\<close>.\<close>

fun truthy :: "PrimitiveValue \<Rightarrow> bool" where
  "truthy (PNumber x) = (x \<noteq> 0)"
| "truthy (PDate d) = True"
| "truthy (PString s) = (s \<noteq> [])"
| "truthy (PBoolean b) = b"
| "truthy PNull = False"

fun is_Number :: "PrimitiveValue \<Rightarrow> bool" where
  "is_Number (PNumber x) = True"
| "is_Number v = False"

fun is_Date :: "PrimitiveValue \<Rightarrow> bool" where
  "is_Date (PDate d) = True"
| "is_Date v = False"

text \<open>
  The loop that fills \<open>ChartDataPoints\<close>: one point per entry of \<open>xValues\<close>, with
  \<open>yValues[i]\<close>, which is \<open>undefined\<close> beyond the end of \<open>yValues\<close>.
\<close>

definition fill_points :: "PrimitiveValue list \<Rightarrow> PrimitiveValue list \<Rightarrow> RawDataPoint list" where
  "fill_points xValues yValues =
     map (\<lambda>i. \<lparr>xValue = xValues ! i,
               yValue = (case at_index yValues (int i) of None \<Rightarrow> PNull | Some v \<Rightarrow> v)\<rparr>)
         [0 ..< length xValues]"

text \<open>
  The moving-range window:
  \<open>if (mRange < 2 || mRange > 50) mRange = 2 else mRange = Math.round(mRange);\<close>
  \<open>Math.round\<close> rounds half up, as \<open>round\<close> does.
\<close>

definition resolve_mRange :: "real \<Rightarrow> int" where
  "resolve_mRange mRange = (if mRange < 2 \<or> mRange > 50 then 2 else round mRange)"

text \<open>\<open>visualTransform\<close> of the moving-range version, and the view model it starts from.\<close>

definition neutral_MR :: "RawDataPoint ViewModel_MR" where
  "neutral_MR =
     \<lparr>dataPoints = [], runRule1 = False, runRule2 = False, runRule3 = False,
      standardDeviations = 3, movingRange = 2, vm_mRError = False\<rparr>"

definition visualTransform :: "DataView list option \<Rightarrow> error + RawDataPoint ViewModel_MR" where
  "visualTransform dataViews =
     (case dataViews of
        None \<Rightarrow> Inr neutral_MR
      | Some [] \<Rightarrow> Inr neutral_MR
      | Some (dv # _) \<Rightarrow>
     (case categorical dv of
        None \<Rightarrow> Inr neutral_MR
      | Some cat \<Rightarrow>
     (case categories cat of
        None \<Rightarrow> Inr neutral_MR
      | Some [] \<Rightarrow> Inl TypeError
      | Some (category # _) \<Rightarrow>
     (if source category = None then Inr neutral_MR
      else
     (case value_columns cat of
        None \<Rightarrow> Inr neutral_MR
      | Some [] \<Rightarrow> Inl TypeError
      | Some (dataValue # _) \<Rightarrow>
          let xValues = category_values category;
              yValues = column_values dataValue;
              isXAxisUsable = (case xValues of
                                 [] \<Rightarrow> False
                               | x0 # _ \<Rightarrow> truthy x0 \<and> (is_Number x0 \<or> is_Date x0));
              isYAxisNumericData = (case yValues of
                                      [] \<Rightarrow> False
                                    | y0 # _ \<Rightarrow> truthy y0 \<and> is_Number y0)
          in if isXAxisUsable \<and> isYAxisNumericData
             then Inr \<lparr>dataPoints = fill_points xValues yValues,
                       runRule1 = getValue (obj_runRule1 (objects dv)) False,
                       runRule2 = getValue (obj_runRule2 (objects dv)) False,
                       runRule3 = getValue (obj_runRule3 (objects dv)) False,
                       standardDeviations = getValue (obj_standardDeviations (objects dv)) 3,
                       movingRange = resolve_mRange (getValue (obj_movingRange (objects dv)) 2),
                       vm_mRError = False\<rparr>
             else Inr neutral_MR)))))"

text \<open>
  \<open>visualTransform\<close> of the standard-deviation version: the same checks for absent
  parts, no check of the values, and \<open>ChartDataPoints[0].xValue\<close> read without a check.
\<close>

definition neutral_SD :: "RawDataPoint ViewModel_SD" where
  "neutral_SD =
     \<lparr>dataPoints = [], runRule1 = False, runRule2 = False, runRule3 = False,
      standardDeviation = 3, useSDSubGroups = True\<rparr>"

definition visualTransform_SD :: "DataView list option \<Rightarrow> error + RawDataPoint ViewModel_SD" where
  "visualTransform_SD dataViews =
     (case dataViews of
        None \<Rightarrow> Inr neutral_SD
      | Some [] \<Rightarrow> Inr neutral_SD
      | Some (dv # _) \<Rightarrow>
     (case categorical dv of
        None \<Rightarrow> Inr neutral_SD
      | Some cat \<Rightarrow>
     (case categories cat of
        None \<Rightarrow> Inr neutral_SD
      | Some [] \<Rightarrow> Inl TypeError
      | Some (category # _) \<Rightarrow>
     (if source category = None then Inr neutral_SD
      else
     (case value_columns cat of
        None \<Rightarrow> Inr neutral_SD
      | Some [] \<Rightarrow> Inl TypeError
      | Some (dataValue # _) \<Rightarrow>
          let ChartDataPoints = fill_points (category_values category) (column_values dataValue)
          in if ChartDataPoints = [] then Inl TypeError
             else Inr \<lparr>dataPoints = ChartDataPoints,
                       runRule1 = getValue (obj_runRule1 (objects dv)) False,
                       runRule2 = getValue (obj_runRule2 (objects dv)) False,
                       runRule3 = getValue (obj_runRule3 (objects dv)) False,
                       standardDeviation = getValue (obj_standardDeviation (objects dv)) 3,
                       useSDSubGroups = getValue (obj_useSDSubGroups (objects dv)) True\<rparr>)))))"

text \<open>
  The condition under which \<open>update\<close> calls \<open>GetStages\<close>, \<open>CalcStats\<close> and \<open>ApplyRules\<close>
  and draws: \<open>this.controlChartViewModel && this.controlChartViewModel.dataPoints[0]\<close>.
\<close>

definition runs_engine :: "('p, 'v) ControlChartViewModel_scheme \<Rightarrow> bool" where
  "runs_engine vm = (dataPoints vm \<noteq> [])"

section \<open>Rule evaluation\<close>

text \<open>
  \<open>ApplyRules\<close> is the same text in both versions. The five arrays of the function are
  the fields of \<open>RuleState\<close>; an entry \<open>[j]\<close> is modelled by \<open>j\<close>. \<open>DrawRulePoints\<close> sets
  the fill colour of the dot of every index it is given: \<open>coloured\<close> lists these indices
  in the order of the calls.
\<close>

record RuleState =
  meanPoints :: "nat list"
  consecIncPoints :: "nat list"
  consecDecPoints :: "nat list"
  consecutiveUPoints :: "nat list"
  consecutiveLPoints :: "nat list"
  coloured :: "nat list"

definition DrawRulePoints :: "nat list \<Rightarrow> RuleState \<Rightarrow> RuleState" where
  "DrawRulePoints points st = st\<lparr>coloured := coloured st @ points\<rparr>"

text \<open>
  Rule 1, for the point \<open>j\<close> of value \<open>y\<close> in stage \<open>s\<close>; its condition is
  \<open>stages[i].uCL < data[j].yValue || stages[i].lCL > data[j].yValue\<close>.
\<close>

definition out_of_limits :: "'a Stage_scheme \<Rightarrow> real \<Rightarrow> bool" where
  "out_of_limits s y = (number_less (uCL s) y \<or> number_greater (lCL s) y)"

definition rule1_point :: "'a Stage_scheme \<Rightarrow> real \<Rightarrow> nat \<Rightarrow> RuleState \<Rightarrow> RuleState" where
  "rule1_point s y j st =
     (if out_of_limits s y then st\<lparr>meanPoints := meanPoints st @ [j]\<rparr> else st)"

text \<open>Rule 2; \<open>prev\<close> is \<open>data[j - 1].yValue\<close>, read only for \<open>j > 0\<close>.\<close>

definition rule2_point :: "real \<Rightarrow> real \<Rightarrow> nat \<Rightarrow> RuleState \<Rightarrow> RuleState" where
  "rule2_point prev y j st =
     (if j > 0
      then (let st1 = (if y > prev
                       then st\<lparr>consecIncPoints := consecIncPoints st @ [j]\<rparr>
                       else (if length (consecIncPoints st) > 5
                             then DrawRulePoints (consecIncPoints st) st else st)
                            \<lparr>consecIncPoints := [j]\<rparr>)
            in if y < prev
               then st1\<lparr>consecDecPoints := consecDecPoints st1 @ [j]\<rparr>
               else (if length (consecDecPoints st1) > 5
                     then DrawRulePoints (consecDecPoints st1) st1 else st1)
                    \<lparr>consecDecPoints := [j]\<rparr>)
      else st\<lparr>consecIncPoints := consecIncPoints st @ [j],
              consecDecPoints := consecDecPoints st @ [j]\<rparr>)"

text \<open>Rule 3: a value equal to the mean takes neither branch.\<close>

definition rule3_point :: "'a Stage_scheme \<Rightarrow> real \<Rightarrow> nat \<Rightarrow> RuleState \<Rightarrow> RuleState" where
  "rule3_point s y j st =
     (if y > mean s
      then (if length (consecutiveLPoints st) > 8
            then DrawRulePoints (consecutiveLPoints st) st else st)
           \<lparr>consecutiveLPoints := [], consecutiveUPoints := consecutiveUPoints st @ [j]\<rparr>
      else if y < mean s
      then (if length (consecutiveUPoints st) > 8
            then DrawRulePoints (consecutiveUPoints st) st else st)
           \<lparr>consecutiveUPoints := [], consecutiveLPoints := consecutiveLPoints st @ [j]\<rparr>
      else st)"

text \<open>
  The body of the inner loop. \<open>data[j]\<close> is read only by an enabled rule, and
  \<open>data[j].yValue\<close> throws when \<open>j\<close> is not an index of the data; \<open>data[j - 1]\<close> is read
  after \<open>data[j]\<close> and only for \<open>j > 0\<close>, so it exists.
\<close>

definition rule_point ::
  "(ChartDataPoint, 'v) ControlChartViewModel_scheme \<Rightarrow> 'a Stage_scheme \<Rightarrow> nat \<Rightarrow> RuleState \<Rightarrow> error + RuleState" where
  "rule_point vm s j st =
     (if runRule1 vm \<or> runRule2 vm \<or> runRule3 vm
      then (case at_index (dataPoints vm) (int j) of
              None \<Rightarrow> Inl TypeError
            | Some obj \<Rightarrow>
                let y = yValue obj;
                    st1 = (if runRule1 vm then rule1_point s y j st else st);
                    st2 = (if runRule2 vm
                           then rule2_point (yValue (dataPoints vm ! (j - 1))) y j st1 else st1)
                in Inr (if runRule3 vm then rule3_point s y j st2 else st2))
      else Inr st)"

fun rule_points ::
  "(ChartDataPoint, 'v) ControlChartViewModel_scheme \<Rightarrow> 'a Stage_scheme \<Rightarrow> nat list \<Rightarrow> RuleState \<Rightarrow> error + RuleState" where
  "rule_points vm s [] st = Inr st"
| "rule_points vm s (j # js) st =
     (case rule_point vm s j st of Inl e \<Rightarrow> Inl e | Inr st' \<Rightarrow> rule_points vm s js st')"

text \<open>What follows the inner loop, at the end of each stage.\<close>

definition stage_end :: "RuleState \<Rightarrow> RuleState" where
  "stage_end st =
     (let st1 = (if length (meanPoints st) > 0
                 then (DrawRulePoints (meanPoints st) st)\<lparr>meanPoints := []\<rparr> else st);
          st2 = (if length (consecutiveLPoints st1) > 8
                 then DrawRulePoints (consecutiveLPoints st1) st1 else st1);
          st3 = (if length (consecutiveUPoints st2) > 8
                 then DrawRulePoints (consecutiveUPoints st2) st2 else st2);
          st4 = st3\<lparr>consecutiveLPoints := [], consecutiveUPoints := []\<rparr>;
          st5 = (if length (consecIncPoints st4) > 5
                 then DrawRulePoints (consecIncPoints st4) st4 else st4);
          st6 = (if length (consecDecPoints st5) > 5
                 then DrawRulePoints (consecDecPoints st5) st5 else st5)
      in st6\<lparr>consecDecPoints := [], consecIncPoints := []\<rparr>)"

fun rule_stages ::
  "(ChartDataPoint, 'v) ControlChartViewModel_scheme \<Rightarrow> 'a Stage_scheme list \<Rightarrow> RuleState \<Rightarrow> error + RuleState" where
  "rule_stages vm [] st = Inr st"
| "rule_stages vm (s # ss) st =
     (case rule_points vm s (stage_indices s) st of
        Inl e \<Rightarrow> Inl e
      | Inr st' \<Rightarrow> rule_stages vm ss (stage_end st'))"

definition ApplyRules ::
  "(ChartDataPoint, 'v) ControlChartViewModel_scheme \<Rightarrow> 'a Stage_scheme list \<Rightarrow> error + nat list" where
  "ApplyRules vm stages =
     (case rule_stages vm stages
             \<lparr>meanPoints = [], consecIncPoints = [], consecDecPoints = [],
              consecutiveUPoints = [], consecutiveLPoints = [], coloured = []\<rparr> of
        Inl e \<Rightarrow> Inl e
      | Inr st \<Rightarrow> Inr (coloured st))"

section \<open>One refresh\<close>

text \<open>
  The computing part of \<open>update\<close>, on a view model with numeric data points and the rows
  of the data view: behind the guard \<open>this.controlChartViewModel.dataPoints[0]\<close> it calls
  \<open>GetStages\<close>, \<open>CalcStats\<close> and \<open>ApplyRules\<close> in this order (the calls between them
  only draw). \<open>None\<close> is a refresh that computes and draws nothing. The data points of
  the view model are the points of the rows. The statements of \<open>update\<close> before the guard
  are \<open>update_entry\<close> below.
\<close>

record ('vm, 'st) Outcome =
  viewModel :: 'vm
  chart :: "'st Chart"
  flagged :: "nat list"

definition update ::
  "ChartDataPoint ViewModel_MR \<Rightarrow> bool \<Rightarrow> (ChartDataPoint \<times> string) list \<Rightarrow>
   error + (ChartDataPoint ViewModel_MR, Stage_MR) Outcome option" where
  "update vm0 hasStages rows =
     (let vm = vm0\<lparr>dataPoints := map fst rows\<rparr>
      in if \<not> runs_engine vm then Inr None
         else (case GetStages hasStages rows of
                 Inl e \<Rightarrow> Inl e
               | Inr stages \<Rightarrow>
                   (case CalcStats vm stages of
                      Inl e \<Rightarrow> Inl e
                    | Inr (vm', ch) \<Rightarrow>
                        (case ApplyRules vm' (chartStages ch) of
                           Inl e \<Rightarrow> Inl e
                         | Inr points \<Rightarrow>
                             Inr (Some \<lparr>viewModel = vm', chart = ch, flagged = points\<rparr>)))))"

definition update_SD ::
  "ChartDataPoint ViewModel_SD \<Rightarrow> bool \<Rightarrow> (ChartDataPoint \<times> string) list \<Rightarrow>
   error + (ChartDataPoint ViewModel_SD, Stage_SD) Outcome option" where
  "update_SD vm0 hasStages rows =
     (let vm = vm0\<lparr>dataPoints := map fst rows\<rparr>
      in if \<not> runs_engine vm then Inr None
         else (case GetStages_SD hasStages rows of
                 Inl e \<Rightarrow> Inl e
               | Inr stages \<Rightarrow>
                   (case CalcStats_SD vm stages of
                      Inl e \<Rightarrow> Inl e
                    | Inr ch \<Rightarrow>
                        (case ApplyRules vm (chartStages ch) of
                           Inl e \<Rightarrow> Inl e
                         | Inr points \<Rightarrow>
                             Inr (Some \<lparr>viewModel = vm, chart = ch, flagged = points\<rparr>)))))"

text \<open>
  The part of \<open>update\<close> before these calls, on the options of the host. It starts with
  \<open>var categorical = options.dataViews[0].categorical;\<close> and
  \<open>if (typeof categorical.categories === "undefined" || typeof categorical.values === "undefined") return;\<close>,
  so a missing data view or a missing categorical part throws there, before
  \<open>visualTransform\<close> is called with its own tests. Then comes \<open>visualTransform\<close> and
  the guard \<open>this.controlChartViewModel.dataPoints[0]\<close>. The result is the view model
  on which \<open>GetStages\<close>, \<open>CalcStats\<close> and \<open>ApplyRules\<close> are then called, or \<open>None\<close> when
  the refresh ends without these calls.
\<close>

definition update_entry :: "DataView list option \<Rightarrow> error + RawDataPoint ViewModel_MR option" where
  "update_entry dataViews =
     (case dataViews of
        None \<Rightarrow> Inl TypeError
      | Some [] \<Rightarrow> Inl TypeError
      | Some (dv # _) \<Rightarrow>
          (case categorical dv of
             None \<Rightarrow> Inl TypeError
           | Some cat \<Rightarrow>
               if categories cat = None \<or> value_columns cat = None then Inr None
               else (case visualTransform dataViews of
                       Inl e \<Rightarrow> Inl e
                     | Inr vm \<Rightarrow> if runs_engine vm then Inr (Some vm) else Inr None)))"

definition update_entry_SD :: "DataView list option \<Rightarrow> error + RawDataPoint ViewModel_SD option" where
  "update_entry_SD dataViews =
     (case dataViews of
        None \<Rightarrow> Inl TypeError
      | Some [] \<Rightarrow> Inl TypeError
      | Some (dv # _) \<Rightarrow>
          (case categorical dv of
             None \<Rightarrow> Inl TypeError
           | Some cat \<Rightarrow>
               if categories cat = None \<or> value_columns cat = None then Inr None
               else (case visualTransform_SD dataViews of
                       Inl e \<Rightarrow> Inl e
                     | Inr vm \<Rightarrow> if runs_engine vm then Inr (Some vm) else Inr None)))"

section \<open>Notions used to state the properties\<close>

text \<open>
  The value of the point \<open>j\<close>, and the points of a stage. A run from \<open>a\<close> to \<open>b\<close> under a
  relation \<open>R\<close>: every point after \<open>a\<close> up to \<open>b\<close> is related to its predecessor. A point
  is in a trend of a stage when it lies in a strictly increasing or strictly decreasing
  run of at least six points inside the stage.
\<close>

definition value_at :: "(ChartDataPoint, 'v) ControlChartViewModel_scheme \<Rightarrow> nat \<Rightarrow> real" where
  "value_at vm j = yValue (dataPoints vm ! j)"

definition in_stage :: "'a Stage_scheme \<Rightarrow> nat \<Rightarrow> bool" where
  "in_stage s j = (firstId s \<le> j \<and> j \<le> lastId s)"

definition run_on :: "(real \<Rightarrow> real \<Rightarrow> bool) \<Rightarrow> (nat \<Rightarrow> real) \<Rightarrow> nat \<Rightarrow> nat \<Rightarrow> bool" where
  "run_on R y a b = (\<forall>k \<in> {a <.. b}. R (y (k - 1)) (y k))"

definition long_runs :: "(real \<Rightarrow> real \<Rightarrow> bool) \<Rightarrow> (nat \<Rightarrow> real) \<Rightarrow> nat \<Rightarrow> nat \<Rightarrow> nat set" where
  "long_runs R y f e = {i. \<exists>a \<in> {f .. i}. \<exists>b \<in> {i ..< e}. a + 5 \<le> b \<and> run_on R y a b}"

definition in_trend ::
  "(ChartDataPoint, 'v) ControlChartViewModel_scheme \<Rightarrow> 'a Stage_scheme \<Rightarrow> nat \<Rightarrow> bool" where
  "in_trend vm s j =
     (j \<in> long_runs (\<lambda>p v. p < v) (value_at vm) (firstId s) (Suc (lastId s))
      \<or> j \<in> long_runs (\<lambda>p v. p > v) (value_at vm) (firstId s) (Suc (lastId s)))"

text \<open>
  Rows for examples: the given values at the positions 1, 2, 3, ... with the given
  labels, and the same without a stage column.
\<close>

definition labelled :: "(real \<times> string) list \<Rightarrow> (ChartDataPoint \<times> string) list" where
  "labelled vs =
     map (\<lambda>(i, v, l). (\<lparr>xValue = real (Suc i), yValue = v\<rparr>, l)) (zip [0 ..< length vs] vs)"

definition series :: "real list \<Rightarrow> (ChartDataPoint \<times> string) list" where
  "series vs = labelled (map (\<lambda>v. (v, [])) vs)"

text \<open>
  The sum of the squared deviations of the points of a stage from the mean of the stage,
  and the stage with the limits that this sum gives.
\<close>

definition sum_squares :: "(ChartDataPoint, 'v) ControlChartViewModel_scheme \<Rightarrow> 'a Stage_scheme \<Rightarrow> real" where
  "sum_squares vm s =
     (\<Sum>j \<leftarrow> stage_indices s. (value_at vm j - mean s) * (value_at vm j - mean s))"

definition sd_limits :: "ChartDataPoint ViewModel_SD \<Rightarrow> Stage_SD \<Rightarrow> Stage_SD" where
  "sd_limits vm s =
     s\<lparr>sumY := sum_squares vm s,
       uCL := number_plus (mean s)
                (number_times (standardDeviation vm) (sd_of (sum_squares vm s) (count s))),
       lCL := number_minus (mean s)
                (number_times (standardDeviation vm) (sd_of (sum_squares vm s) (count s))),
       sd := sd_of (sum_squares vm s) (count s)\<rparr>"

text \<open>
  The input of a refresh: the position sequence and the value sequence are the values of
  the first category column (with a source) and of the first value column of the first
  data view. The two tests of the moving-range version on them look at the first entry
  only: \<open>category.values[0]\<close> is truthy and a number or a date, \<open>dataValue.values[0]\<close>
  is truthy and a number.
\<close>

definition input_sequences ::
  "DataView list option \<Rightarrow> (PrimitiveValue list \<times> PrimitiveValue list) option" where
  "input_sequences dataViews =
     (case dataViews of
        Some (dv # _) \<Rightarrow>
          (case categorical dv of
             Some cat \<Rightarrow>
               (case (categories cat, value_columns cat) of
                  (Some (category # _), Some (dataValue # _)) \<Rightarrow>
                    (if source category = None then None
                     else Some (category_values category, column_values dataValue))
                | _ \<Rightarrow> None)
           | None \<Rightarrow> None)
      | _ \<Rightarrow> None)"

definition accepted_positions :: "PrimitiveValue list \<Rightarrow> bool" where
  "accepted_positions xs =
     (case xs of [] \<Rightarrow> False | x # _ \<Rightarrow> is_Date x \<or> (is_Number x \<and> x \<noteq> PNumber 0))"

definition accepted_values :: "PrimitiveValue list \<Rightarrow> bool" where
  "accepted_values ys =
     (case ys of [] \<Rightarrow> False | y # _ \<Rightarrow> is_Number y \<and> y \<noteq> PNumber 0)"

text \<open>
  Data views for examples: one category column with the given positions, one value
  column with the given values, and the given stored properties; no stored property at
  all; only a stored window; a data view without a categorical part.
\<close>

definition view_of ::
  "DataViewObjects \<Rightarrow> PrimitiveValue list \<Rightarrow> PrimitiveValue list \<Rightarrow> DataView list option" where
  "view_of props xs ys =
     Some [\<lparr>categorical =
              Some \<lparr>categories = Some [\<lparr>source = Some ''x'', category_values = xs\<rparr>],
                    value_columns = Some [\<lparr>column_values = ys\<rparr>]\<rparr>,
            objects = props\<rparr>]"

definition no_objects :: DataViewObjects where
  "no_objects =
     \<lparr>obj_standardDeviations = None, obj_standardDeviation = None,
      obj_movingRange = None, obj_useSDSubGroups = None,
      obj_runRule1 = None, obj_runRule2 = None, obj_runRule3 = None\<rparr>"

definition data_view :: "PrimitiveValue list \<Rightarrow> PrimitiveValue list \<Rightarrow> DataView list option" where
  "data_view xs ys = view_of no_objects xs ys"

definition stored_window :: "real \<Rightarrow> DataViewObjects" where
  "stored_window w = no_objects\<lparr>obj_movingRange := Some w\<rparr>"

definition no_categorical :: DataView where
  "no_categorical = \<lparr>categorical = None, objects = no_objects\<rparr>"

text \<open>
  The number of points in the stages of a list that carry the label \<open>l\<close>, the sum of
  the counts of these stages, and the count of the subgroup that \<open>findIndexByKeyValue\<close>
  finds for the label.
\<close>

definition label_points :: "'a Stage_scheme list \<Rightarrow> string \<Rightarrow> nat" where
  "label_points stages l =
     (\<Sum>s \<leftarrow> stages. if stage s = l then Suc (lastId s) - firstId s else 0)"

definition label_count :: "'a Stage_scheme list \<Rightarrow> string \<Rightarrow> nat" where
  "label_count stages l = (\<Sum>s \<leftarrow> stages. if stage s = l then count s else 0)"

definition subgroup_count :: "SubGroup list \<Rightarrow> string \<Rightarrow> nat" where
  "subgroup_count groups l =
     (case findIndexByKeyValue groups l of None \<Rightarrow> 0 | Some i \<Rightarrow> sg_count (groups ! i))"

text \<open>
  The moving range at \<open>j\<close> for a window of \<open>m\<close> points, the largest minus the smallest of
  the \<open>m\<close> values that end at \<open>j\<close>; and the average moving range over all windows inside
  the stage from \<open>f\<close> to \<open>l\<close>.
\<close>

definition moving_range :: "(nat \<Rightarrow> real) \<Rightarrow> nat \<Rightarrow> nat \<Rightarrow> real" where
  "moving_range y m j = Max (y ` {Suc j - m .. j}) - Min (y ` {Suc j - m .. j})"

definition rBar_of :: "(nat \<Rightarrow> real) \<Rightarrow> nat \<Rightarrow> nat \<Rightarrow> nat \<Rightarrow> real" where
  "rBar_of y m f l =
     (\<Sum>j \<in> {f + m - 1 .. l}. moving_range y m j) / (real (Suc l - f) - real m + 1)"

text \<open>
  The stage before the stage \<open>i\<close> of a list, if there is one. The line segments of a list
  of stages: one mean segment and one divider for every stage, from the divider of the
  stage before it (or from its own start) to its own divider; and one limit segment, at
  the height \<open>limit\<close>, for every stage that satisfies \<open>keep\<close>.
\<close>

definition prev_stage :: "'a list \<Rightarrow> nat \<Rightarrow> 'a option" where
  "prev_stage stages i = (if i = 0 then None else Some (stages ! (i - 1)))"

definition mean_lines :: "'a Stage_scheme list \<Rightarrow> Line list" where
  "mean_lines stages =
     map (\<lambda>i. mean_segment (prev_stage stages i) (stages ! i)) [0 ..< length stages]"

definition limit_lines ::
  "('a Stage_scheme \<Rightarrow> number) \<Rightarrow> ('a Stage_scheme \<Rightarrow> bool) \<Rightarrow> 'a Stage_scheme list \<Rightarrow> Line list" where
  "limit_lines limit keep stages =
     map (\<lambda>i. limit_segment (prev_stage stages i) (stages ! i) (limit (stages ! i)))
         (filter (\<lambda>i. keep (stages ! i)) [0 ..< length stages])"

definition dividers :: "'a Stage_scheme list \<Rightarrow> Divider list" where
  "dividers stages =
     map (\<lambda>i. divider_of (prev_stage stages i) (stages ! i)) [0 ..< length stages]"

text \<open>For the proofs: a chart whose lines are the lines of its stages.\<close>

definition chart_ok :: "('a Stage_scheme \<Rightarrow> bool) \<Rightarrow> 'a Stage_scheme Chart \<Rightarrow> bool" where
  "chart_ok keep ch =
     (meanLine ch = mean_lines (chartStages ch)
      \<and> uclLines ch = limit_lines uCL keep (chartStages ch)
      \<and> lclLines ch = limit_lines lCL keep (chartStages ch)
      \<and> stageDividers ch = dividers (chartStages ch))"

text \<open>
  The index ranges of a list of stages partition the indices from \<open>start\<close> up to, and not
  including, \<open>n\<close>: in the order of the list every range is not empty and begins where the
  one before it ended.
\<close>

fun partitions :: "nat \<Rightarrow> 'a Stage_scheme list \<Rightarrow> nat \<Rightarrow> bool" where
  "partitions start [] n = (start = n)"
| "partitions start (s # ss) n =
     (firstId s = start \<and> firstId s \<le> lastId s \<and> partitions (Suc (lastId s)) ss n)"

text \<open>
  The stages cover the indices below \<open>n\<close> without gaps and without overlaps: their
  ranges partition the indices in the order of the list, so every index lies in exactly
  one stage.
\<close>

definition covers_indices :: "'a Stage_scheme list \<Rightarrow> nat \<Rightarrow> bool" where
  "covers_indices stages n =
     (partitions 0 stages n
      \<and> (\<forall>j < n. \<exists>!k. k < length stages \<and> in_stage (stages ! k) j))"

text \<open>
  A stage as \<open>GetStages\<close> pushes it: limits 0, the extra field as given, and as many
  points as its index range holds.
\<close>

definition fresh_stage :: "'a \<Rightarrow> 'a Stage_scheme \<Rightarrow> bool" where
  "fresh_stage ext s =
     (uCL s = Num 0 \<and> lCL s = Num 0 \<and> Stage.more s = ext \<and> count s = Suc (lastId s) - firstId s)"

text \<open>
  For the proofs: a stage that \<open>GetStages\<close> could have pushed for the data of the view
  model.
\<close>

definition stage_ok :: "(ChartDataPoint, 'v) ControlChartViewModel_scheme \<Rightarrow> Stage_MR \<Rightarrow> bool" where
  "stage_ok vm s =
     (fresh_stage (Stage_MR.fields False) s \<and> firstId s \<le> lastId s
      \<and> lastId s < length (dataPoints vm))"

text \<open>
  For the proofs: what holds when the loop of \<open>GetStages\<close> reaches index \<open>i\<close> with the
  rows \<open>rest\<close> still to visit.
\<close>

definition GetStages_inv ::
  "'a \<Rightarrow> bool \<Rightarrow> nat \<Rightarrow> nat \<Rightarrow> ChartDataPoint option \<Rightarrow> (ChartDataPoint \<times> string) list \<Rightarrow>
   string \<Rightarrow> 'a Stage_scheme \<Rightarrow> 'a Stage_scheme list \<Rightarrow> bool" where
  "GetStages_inv ext hasStages n i prev rest currentStage st stages =
     (n = i + length rest \<and> (\<forall>s \<in> set stages. fresh_stage ext s)
      \<and> (case rest of
            [] \<Rightarrow> partitions 0 stages n
          | (obj, label) # _ \<Rightarrow>
              partitions 0 stages (firstId st) \<and> firstId st + count st = i
              \<and> (case prev of
                    None \<Rightarrow> i = 0 \<and> currentStage = (if hasStages then label else [])
                  | Some p \<Rightarrow> 0 < count st)))"

text \<open>
  For the proofs: a state of the rule evaluation in which the four run arrays are empty,
  and what holds of a run array \<open>points\<close> before the point \<open>j\<close> of a stage that starts at
  \<open>f\<close>: it holds the indices from \<open>a\<close> to \<open>j - 1\<close>, which form a run that cannot be
  extended to the left.
\<close>

definition idle :: "RuleState \<Rightarrow> bool" where
  "idle st = (consecIncPoints st = [] \<and> consecDecPoints st = []
              \<and> consecutiveUPoints st = [] \<and> consecutiveLPoints st = [])"

definition run_inv ::
  "(real \<Rightarrow> real \<Rightarrow> bool) \<Rightarrow> (nat \<Rightarrow> real) \<Rightarrow> nat \<Rightarrow> nat \<Rightarrow> nat list \<Rightarrow> nat \<Rightarrow> bool" where
  "run_inv R y f j points a =
     (f \<le> a \<and> a < j \<and> points = [a ..< j] \<and> run_on R y a (j - 1)
      \<and> (a = f \<or> \<not> R (y (a - 1)) (y a)))"

text \<open>
  For the proofs: the state \<open>st\<close> of an evaluation with Rule 2 and possibly other rules
  against the state \<open>st2\<close> of the evaluation with Rule 2 alone: the same runs, and at
  least the same points coloured.
\<close>

definition covers :: "RuleState \<Rightarrow> RuleState \<Rightarrow> bool" where
  "covers st st2 =
     (consecIncPoints st = consecIncPoints st2 \<and> consecDecPoints st = consecDecPoints st2
      \<and> set (coloured st2) \<subseteq> set (coloured st))"

text \<open>
  What holds of the state \<open>st\<close> before the point \<open>j\<close> of a stage that starts at \<open>f\<close>, when
  only Rule 2 runs and the stage was entered in state \<open>st0\<close>: the two arrays of Rule 2
  hold the current runs, and the points coloured so far in this stage are those of the
  long runs that ended before the current ones.
\<close>

definition trend_state :: "(nat \<Rightarrow> real) \<Rightarrow> nat \<Rightarrow> nat \<Rightarrow> RuleState \<Rightarrow> RuleState \<Rightarrow> bool" where
  "trend_state y f j st0 st =
     (\<exists>a d. run_inv (\<lambda>p v. p < v) y f j (consecIncPoints st) a
          \<and> run_inv (\<lambda>p v. p > v) y f j (consecDecPoints st) d
          \<and> set (coloured st) =
              set (coloured st0) \<union> long_runs (\<lambda>p v. p < v) y f a \<union> long_runs (\<lambda>p v. p > v) y f d
          \<and> meanPoints st = meanPoints st0
          \<and> consecutiveUPoints st = consecutiveUPoints st0
          \<and> consecutiveLPoints st = consecutiveLPoints st0)"

section \<open>The d2 lookup\<close>

lemma length_d2Array: "length d2Array = 50"
  by (simp add: d2Array_def)

lemma d2Array_ge_1: "x \<in> set d2Array \<Longrightarrow> 1 \<le> x"
  by (auto simp: d2Array_def)

lemma LookUpd2_in_table:
  assumes "1 \<le> n" and "n \<le> 50"
  shows "LookUpd2 n = Some (d2Array ! nat (n - 1))" and "1 \<le> d2Array ! nat (n - 1)"
proof -
  from assms have "nat (n - 1) < length d2Array"
    by (simp add: length_d2Array)
  then show "1 \<le> d2Array ! nat (n - 1)"
    by (intro d2Array_ge_1 nth_mem)
  from assms show "LookUpd2 n = Some (d2Array ! nat (n - 1))"
    by (simp add: LookUpd2_def at_index_def length_d2Array)
qed

text \<open>
  C10, as stated: the values of the table for \<open>n = 1, 2, 3, 4\<close> would be 1.128, 1.693,
  2.059, 2.326. The first entry of the array is 1, so the lookup gives 1 for \<open>n = 1\<close> and
  the listed values belong to \<open>n = 2, 3, 4, 5\<close>.
\<close>

theorem LookUpd2_table_start_counterexample:
  "LookUpd2 1 = Some 1 \<and> map LookUpd2 [1, 2, 3, 4] \<noteq> [Some 1.128, Some 1.693, Some 2.059, Some 2.326]"
  by (simp add: LookUpd2_def at_index_def d2Array_def)

text \<open>
  C10, amended: the lookup gives 1.128 for 2 and 2.326 for 5, and 1 for every \<open>n \<le> 0\<close>;
  for \<open>n\<close> from 1 to 50 it is the entry \<open>n - 1\<close> of a fixed table of 50 values, all at
  least 1, which starts 1, 1.128, 1.693, 2.059, 2.326 (the value for \<open>n = 1\<close> is 1).
\<close>

theorem LookUpd2_table:
  "LookUpd2 2 = Some 1.128 \<and> LookUpd2 5 = Some 2.326
   \<and> (\<forall>n. n \<le> 0 \<longrightarrow> LookUpd2 n = Some 1)
   \<and> length d2Array = 50
   \<and> (\<forall>n. 1 \<le> n \<and> n \<le> 50 \<longrightarrow> LookUpd2 n = Some (d2Array ! nat (n - 1)) \<and> 1 \<le> d2Array ! nat (n - 1))
   \<and> map LookUpd2 [1, 2, 3, 4, 5] = [Some 1, Some 1.128, Some 1.693, Some 2.059, Some 2.326]"
proof -
  have "LookUpd2 2 = Some 1.128" "LookUpd2 5 = Some 2.326"
    "map LookUpd2 [1, 2, 3, 4, 5] = [Some 1, Some 1.128, Some 1.693, Some 2.059, Some 2.326]"
    by (simp_all add: LookUpd2_def at_index_def d2Array_def)
  moreover have "\<forall>n. n \<le> 0 \<longrightarrow> LookUpd2 n = Some 1"
    by (simp add: LookUpd2_def)
  ultimately show ?thesis
    using LookUpd2_in_table length_d2Array by blast
qed

theorem LookUpd2_table_witness:
  "(0::int) \<le> 0 \<and> LookUpd2 0 = Some 1 \<and> (1::int) \<le> 50 \<and> LookUpd2 50 = Some 4.498"
proof -
  have "LookUpd2 50 = Some (d2Array ! nat (50 - 1))"
    using LookUpd2_table by simp
  moreover have "LookUpd2 0 = Some 1"
    using LookUpd2_table by simp
  ultimately show ?thesis
    by (simp add: d2Array_def)
qed

section \<open>The moving-range window\<close>

lemma resolve_mRange_range: "2 \<le> resolve_mRange v \<and> resolve_mRange v \<le> 50"
proof (cases "v < 2 \<or> v > 50")
  case True
  then show ?thesis by (simp add: resolve_mRange_def)
next
  case False
  then have "2 \<le> v" and "v \<le> 50" by simp_all
  then have "round (2::real) \<le> round v" and "round v \<le> round (50::real)"
    using round_mono [of 2 v] round_mono [of v 50] by blast+
  moreover have "round (2::real) = 2" and "round (50::real) = 50"
    by (simp_all add: round_def)
  ultimately show ?thesis
    using False by (simp add: resolve_mRange_def)
qed

lemma truthy_accepted_position:
  "(truthy x \<and> (is_Number x \<or> is_Date x)) = (is_Date x \<or> (is_Number x \<and> x \<noteq> PNumber 0))"
  by (cases x) simp_all

lemma truthy_accepted_value:
  "(truthy y \<and> is_Number y) = (is_Number y \<and> y \<noteq> PNumber 0)"
  by (cases y) simp_all

lemma fill_points_Nil: "fill_points xs ys = [] \<longleftrightarrow> xs = []"
  by (simp add: fill_points_def)

text \<open>
  What \<open>visualTransform\<close> returns: the neutral view model, or the view model built from
  the first data view, with the data points of the two sequences and the window resolved
  from the stored property.
\<close>

lemma visualTransform_cases:
  assumes "visualTransform dataViews = Inr vm"
  shows "vm = neutral_MR
         \<or> (\<exists>dv rest xs ys. dataViews = Some (dv # rest)
               \<and> input_sequences dataViews = Some (xs, ys)
               \<and> accepted_positions xs \<and> accepted_values ys
               \<and> dataPoints vm = fill_points xs ys
               \<and> movingRange vm = resolve_mRange (getValue (obj_movingRange (objects dv)) 2))"
proof (cases dataViews)
  case None
  with assms show ?thesis by (simp add: visualTransform_def)
next
  case (Some dvs)
  show ?thesis
  proof (cases dvs)
    case Nil
    with Some assms show ?thesis by (simp add: visualTransform_def)
  next
    case (Cons dv rest)
    show ?thesis
    proof (cases "categorical dv")
      case None
      with Some Cons assms show ?thesis by (simp add: visualTransform_def)
    next
      case cat: (Some cat)
      show ?thesis
      proof (cases "categories cat")
        case None
        with Some Cons cat assms show ?thesis by (simp add: visualTransform_def)
      next
        case cs: (Some cs)
        show ?thesis
        proof (cases cs)
          case Nil
          with Some Cons cat cs assms show ?thesis by (simp add: visualTransform_def)
        next
          case c: (Cons category cs')
          show ?thesis
          proof (cases "source category")
            case None
            with Some Cons cat cs c assms show ?thesis by (simp add: visualTransform_def)
          next
            case src: (Some name)
            show ?thesis
            proof (cases "value_columns cat")
              case None
              with Some Cons cat cs c src assms show ?thesis
                by (simp add: visualTransform_def)
            next
              case vs: (Some vs)
              show ?thesis
              proof (cases vs)
                case Nil
                with Some Cons cat cs c src vs assms show ?thesis
                  by (simp add: visualTransform_def)
              next
                case v: (Cons dataValue vs')
                let ?xs = "category_values category" and ?ys = "column_values dataValue"
                have seqs: "input_sequences dataViews = Some (?xs, ?ys)"
                  using Some Cons cat cs c src vs v by (simp add: input_sequences_def)
                have vt: "visualTransform dataViews =
                    (if accepted_positions ?xs \<and> accepted_values ?ys
                     then Inr \<lparr>dataPoints = fill_points ?xs ?ys,
                               runRule1 = getValue (obj_runRule1 (objects dv)) False,
                               runRule2 = getValue (obj_runRule2 (objects dv)) False,
                               runRule3 = getValue (obj_runRule3 (objects dv)) False,
                               standardDeviations = getValue (obj_standardDeviations (objects dv)) 3,
                               movingRange = resolve_mRange (getValue (obj_movingRange (objects dv)) 2),
                               vm_mRError = False\<rparr>
                     else Inr neutral_MR)"
                  using Some Cons cat cs c src vs v
                  by (auto simp: visualTransform_def accepted_positions_def accepted_values_def
                        truthy_accepted_position truthy_accepted_value Let_def
                      split: list.split)
                show ?thesis
                proof (cases "accepted_positions ?xs \<and> accepted_values ?ys")
                  case True
                  with vt assms seqs Some Cons show ?thesis by auto
                next
                  case False
                  with vt assms show ?thesis by auto
                qed
              qed
            qed
          qed
        qed
      qed
    qed
  qed
qed

lemma visualTransform_accepted:
  assumes "dataViews = Some (dv # rest)" and "input_sequences dataViews = Some (xs, ys)"
    and "accepted_positions xs" and "accepted_values ys"
  shows "\<exists>vm. visualTransform dataViews = Inr vm \<and> dataPoints vm = fill_points xs ys
           \<and> runs_engine vm
           \<and> movingRange vm = resolve_mRange (getValue (obj_movingRange (objects dv)) 2)"
proof -
  from assms(3) have ne: "xs \<noteq> []" by (auto simp: accepted_positions_def)
  from assms(1,2) obtain cat category cs dataValue vs where
    parts: "categorical dv = Some cat" "categories cat = Some (category # cs)"
      "value_columns cat = Some (dataValue # vs)" "source category \<noteq> None"
      "xs = category_values category" "ys = column_values dataValue"
    by (auto simp: input_sequences_def split: option.splits list.splits if_splits)
  have "visualTransform dataViews =
      Inr \<lparr>dataPoints = fill_points xs ys,
           runRule1 = getValue (obj_runRule1 (objects dv)) False,
           runRule2 = getValue (obj_runRule2 (objects dv)) False,
           runRule3 = getValue (obj_runRule3 (objects dv)) False,
           standardDeviations = getValue (obj_standardDeviations (objects dv)) 3,
           movingRange = resolve_mRange (getValue (obj_movingRange (objects dv)) 2),
           vm_mRError = False\<rparr>"
    using assms(1,3,4) parts
    by (auto simp: visualTransform_def accepted_positions_def accepted_values_def
          truthy_accepted_position truthy_accepted_value Let_def
        split: list.splits)
  with ne show ?thesis by (simp add: runs_engine_def fill_points_Nil)
qed

text \<open>
  C9: the window is computed by a total function of the stored property, so nothing is
  raised: without a stored property it is 2; a value below 2 or above 50 gives 2; a value
  from 2 to 50 is rounded to the nearest integer (at most one half away); the window is
  always an integer from 2 to 50, in every view model that \<open>visualTransform\<close> returns.
  A view model on which the computation runs carries the window resolved from the
  stored property of the first data view, and any other view model returned carries 2.
  When the first position and the first value of the data view pass the tests of
  \<open>visualTransform\<close>, the refresh raises nothing and the computation runs on a view
  model with the window resolved from the stored property.
\<close>

theorem movingRange_resolved:
  "resolve_mRange (getValue None 2) = 2
   \<and> (v < 2 \<or> v > 50 \<longrightarrow> resolve_mRange (getValue (Some v) 2) = 2)
   \<and> (2 \<le> v \<and> v \<le> 50 \<longrightarrow>
        resolve_mRange (getValue (Some v) 2) = round v
        \<and> \<bar>real_of_int (resolve_mRange (getValue (Some v) 2)) - v\<bar> \<le> 1 / 2)
   \<and> 2 \<le> resolve_mRange (getValue p 2) \<and> resolve_mRange (getValue p 2) \<le> 50
   \<and> (visualTransform dataViews = Inr vm \<longrightarrow> 2 \<le> movingRange vm \<and> movingRange vm \<le> 50)
   \<and> (visualTransform dataViews = Inr vm \<and> runs_engine vm \<longrightarrow>
        (\<exists>dv rest. dataViews = Some (dv # rest)
           \<and> movingRange vm = resolve_mRange (getValue (obj_movingRange (objects dv)) 2)))
   \<and> (visualTransform dataViews = Inr vm \<and> \<not> runs_engine vm \<longrightarrow> movingRange vm = 2)
   \<and> (dataViews = Some (dv # rest) \<and> input_sequences dataViews = Some (xs, ys)
        \<and> accepted_positions xs \<and> accepted_values ys \<longrightarrow>
        (\<exists>vm'. visualTransform dataViews = Inr vm' \<and> update_entry dataViews = Inr (Some vm')
           \<and> movingRange vm' = resolve_mRange (getValue (obj_movingRange (objects dv)) 2)))"
proof -
  have 1: "resolve_mRange (getValue None 2) = 2"
    by (simp add: getValue_def resolve_mRange_def)
  have 2: "v < 2 \<or> v > 50 \<longrightarrow> resolve_mRange (getValue (Some v) 2) = 2"
    by (simp add: getValue_def resolve_mRange_def)
  have 3: "2 \<le> v \<and> v \<le> 50 \<longrightarrow>
        resolve_mRange (getValue (Some v) 2) = round v
        \<and> \<bar>real_of_int (resolve_mRange (getValue (Some v) 2)) - v\<bar> \<le> 1 / 2"
    using of_int_round_abs_le [of v] by (auto simp: getValue_def resolve_mRange_def)
  have 4: "visualTransform dataViews = Inr vm \<longrightarrow> 2 \<le> movingRange vm \<and> movingRange vm \<le> 50"
  proof
    assume "visualTransform dataViews = Inr vm"
    from visualTransform_cases [OF this]
    have "vm = neutral_MR \<or> (\<exists>w. movingRange vm = resolve_mRange w)"
      by blast
    then show "2 \<le> movingRange vm \<and> movingRange vm \<le> 50"
      using resolve_mRange_range by (auto simp: neutral_MR_def)
  qed
  have 5: "visualTransform dataViews = Inr vm \<and> runs_engine vm \<longrightarrow>
        (\<exists>dv rest. dataViews = Some (dv # rest)
           \<and> movingRange vm = resolve_mRange (getValue (obj_movingRange (objects dv)) 2))"
  proof
    assume a: "visualTransform dataViews = Inr vm \<and> runs_engine vm"
    then have "vm \<noteq> neutral_MR" by (auto simp: runs_engine_def neutral_MR_def)
    with visualTransform_cases [of dataViews vm] a
    show "\<exists>dv rest. dataViews = Some (dv # rest)
           \<and> movingRange vm = resolve_mRange (getValue (obj_movingRange (objects dv)) 2)"
      by blast
  qed
  have 6: "visualTransform dataViews = Inr vm \<and> \<not> runs_engine vm \<longrightarrow> movingRange vm = 2"
  proof
    assume a: "visualTransform dataViews = Inr vm \<and> \<not> runs_engine vm"
    from a visualTransform_cases [of dataViews vm] consider "vm = neutral_MR"
      | xs ys where "accepted_positions xs" "dataPoints vm = fill_points xs ys"
      by blast
    then show "movingRange vm = 2"
    proof cases
      case 1
      then show ?thesis by (simp add: neutral_MR_def)
    next
      case 2
      then have "dataPoints vm \<noteq> []"
        by (auto simp: accepted_positions_def fill_points_Nil)
      with a show ?thesis by (simp add: runs_engine_def)
    qed
  qed
  have 7: "dataViews = Some (dv # rest) \<and> input_sequences dataViews = Some (xs, ys)
        \<and> accepted_positions xs \<and> accepted_values ys \<longrightarrow>
        (\<exists>vm'. visualTransform dataViews = Inr vm' \<and> update_entry dataViews = Inr (Some vm')
           \<and> movingRange vm' = resolve_mRange (getValue (obj_movingRange (objects dv)) 2))"
  proof
    assume a: "dataViews = Some (dv # rest) \<and> input_sequences dataViews = Some (xs, ys)
        \<and> accepted_positions xs \<and> accepted_values ys"
    then obtain vm' where vt: "visualTransform dataViews = Inr vm'" and re: "runs_engine vm'"
      and w: "movingRange vm' = resolve_mRange (getValue (obj_movingRange (objects dv)) 2)"
      using visualTransform_accepted [of dataViews dv rest xs ys] by blast
    from a have "\<exists>cat. categorical dv = Some cat \<and> categories cat \<noteq> None
        \<and> value_columns cat \<noteq> None"
      by (auto simp: input_sequences_def split: option.splits list.splits if_splits)
    with a vt re have "update_entry dataViews = Inr (Some vm')"
      by (auto simp: update_entry_def)
    with vt w show "\<exists>vm'. visualTransform dataViews = Inr vm' \<and> update_entry dataViews = Inr (Some vm')
           \<and> movingRange vm' = resolve_mRange (getValue (obj_movingRange (objects dv)) 2)"
      by blast
  qed
  from 1 2 3 4 5 6 7 resolve_mRange_range show ?thesis by blast
qed

theorem movingRange_resolved_witness:
  "(\<exists>vm. update_entry (view_of (stored_window 49.7) [PNumber 1, PNumber 2] [PNumber 5, PNumber 6])
            = Inr (Some vm) \<and> movingRange vm = 50)
   \<and> (\<exists>vm. update_entry (view_of (stored_window 51) [PNumber 1, PNumber 2] [PNumber 5, PNumber 6])
            = Inr (Some vm) \<and> movingRange vm = 2)
   \<and> (\<exists>vm. update_entry (data_view [PNumber 1, PNumber 2] [PNumber 5, PNumber 6])
            = Inr (Some vm) \<and> movingRange vm = 2)
   \<and> visualTransform None = Inr neutral_MR \<and> movingRange neutral_MR = 2"
proof -
  let ?xs = "[PNumber 1, PNumber 2]" and ?ys = "[PNumber 5, PNumber 6]"
  let ?dv = "\<lambda>props. \<lparr>categorical =
              Some \<lparr>categories = Some [\<lparr>source = Some ''x'', category_values = ?xs\<rparr>],
                    value_columns = Some [\<lparr>column_values = ?ys\<rparr>]\<rparr>,
            objects = props\<rparr>"
  have h: "view_of props ?xs ?ys = Some (?dv props # [])
      \<and> input_sequences (view_of props ?xs ?ys) = Some (?xs, ?ys)
      \<and> accepted_positions ?xs \<and> accepted_values ?ys" for props
    by (simp add: input_sequences_def view_of_def accepted_positions_def accepted_values_def)
  have run: "\<exists>vm. update_entry (view_of props ?xs ?ys) = Inr (Some vm)
      \<and> movingRange vm = resolve_mRange (getValue (obj_movingRange props) 2)" for props
  proof -
    note t = movingRange_resolved [where dataViews = "view_of props ?xs ?ys"
        and xs = ?xs and ys = ?ys and rest = "[]" and dv = "?dv props",
        THEN conjunct2, THEN conjunct2, THEN conjunct2, THEN conjunct2, THEN conjunct2,
        THEN conjunct2, THEN conjunct2, THEN conjunct2]
    from t h [of props] obtain vm' where
      "update_entry (view_of props ?xs ?ys) = Inr (Some vm')"
      "movingRange vm' = resolve_mRange (getValue (obj_movingRange (objects (?dv props))) 2)"
      by blast
    then show ?thesis by simp
  qed
  have "resolve_mRange (getValue (Some 49.7) 2) = round (49.7::real)"
    using movingRange_resolved [where v = "49.7"] by simp
  then have d: "resolve_mRange (getValue (Some 49.7) 2) = 50"
    by (simp add: round_def)
  have e: "resolve_mRange (getValue (Some 51) 2) = 2"
    using movingRange_resolved [where v = 51] by simp
  have f: "resolve_mRange (getValue None 2) = 2"
    using movingRange_resolved by (rule conjunct1)
  have a: "\<exists>vm. update_entry (view_of (stored_window 49.7) ?xs ?ys) = Inr (Some vm)
      \<and> movingRange vm = 50"
    using run [of "stored_window 49.7"] d by (simp add: stored_window_def no_objects_def)
  have b: "\<exists>vm. update_entry (view_of (stored_window 51) ?xs ?ys) = Inr (Some vm)
      \<and> movingRange vm = 2"
    using run [of "stored_window 51"] e by (simp add: stored_window_def no_objects_def)
  have c: "\<exists>vm. update_entry (data_view ?xs ?ys) = Inr (Some vm) \<and> movingRange vm = 2"
    using run [of no_objects] f by (simp add: data_view_def no_objects_def)
  have g: "visualTransform None = Inr neutral_MR \<and> movingRange neutral_MR = 2"
    by (simp add: visualTransform_def neutral_MR_def)
  from a b c g show ?thesis by (intro conjI) simp_all
qed

section \<open>Properties of the stage segmentation\<close>

lemma partitions_append:
  "partitions start (ss @ [s]) e \<longleftrightarrow>
     partitions start ss (firstId s) \<and> firstId s \<le> lastId s \<and> e = Suc (lastId s)"
  by (induction ss arbitrary: start) auto

lemma close_stage_fields [simp]:
  "firstId (close_stage ext st d l) = firstId st"
  "lastId (close_stage ext st d l) = l"
  "count (close_stage ext st d l) = count st"
  "uCL (close_stage ext st d l) = Num 0"
  "lCL (close_stage ext st d l) = Num 0"
  "Stage.more (close_stage ext st d l) = ext"
  "mean (close_stage ext st d l) = mean st"
  by (simp_all add: close_stage_def)

lemma set_mean_fields [simp]:
  "firstId (set_mean st) = firstId st"
  "count (set_mean st) = count st"
  by (simp_all add: set_mean_def)

lemma GetStages_loop_inv:
  assumes "GetStages_inv ext hasStages n i prev rest cur st stages"
  shows "\<exists>out. GetStages_loop ext hasStages n i prev rest cur st stages = Inr out
           \<and> partitions 0 out n \<and> (\<forall>s \<in> set out. fresh_stage ext s)"
  using assms
proof (induction rest arbitrary: i prev cur st stages)
  case Nil
  then show ?case by (auto simp: GetStages_inv_def)
next
  case (Cons row rest)
  obtain obj label where row: "row = (obj, label)" by (cases row)
  define stageValue where "stageValue = (if hasStages then label else [])"
  from Cons.prems have n: "n = Suc (i + length rest)"
    and fresh: "\<forall>s \<in> set stages. fresh_stage ext s"
    and part: "partitions 0 stages (firstId st)"
    and cnt: "firstId st + count st = i"
    by (simp_all add: GetStages_inv_def row)
  from Cons.prems have prev: "case prev of None \<Rightarrow> i = 0 \<and> cur = stageValue | Some p \<Rightarrow> 0 < count st"
    by (auto simp: GetStages_inv_def row stageValue_def split: option.splits)
  have last: "i = n - Suc 0 \<longleftrightarrow> rest = []"
    using n by auto
  show ?case
  proof (cases "cur = stageValue \<or> \<not> hasStages")
    case True
    define st' where "st' = st\<lparr>sumY := sumY st + yValue obj, count := count st + 1\<rparr>"
    define cur' where "cur' = (if hasStages then label else cur)"
    define st3 where "st3 = (set_mean st')\<lparr>endX := xValue obj, stage := stageValue\<rparr>"
    have eq: "GetStages_loop ext hasStages n i prev (row # rest) cur st stages =
        (if rest = []
         then GetStages_loop ext hasStages n (Suc i) (Some obj) rest cur' st3
                (stages @ [close_stage ext st3 (endX st3) i])
         else GetStages_loop ext hasStages n (Suc i) (Some obj) rest cur' st' stages)"
      using True unfolding row stageValue_def st'_def cur'_def st3_def
      by (cases hasStages; simp add: Let_def last)
    show ?thesis
    proof (cases "rest = []")
      case True
      have "GetStages_inv ext hasStages n (Suc i) (Some obj) rest cur' st3
                (stages @ [close_stage ext st3 (endX st3) i])"
        using True n fresh part cnt
        by (auto simp: GetStages_inv_def partitions_append st3_def st'_def fresh_stage_def)
      from Cons.IH [OF this] show ?thesis unfolding eq using True by simp
    next
      case False
      then obtain r rs where "rest = r # rs" by (cases rest) auto
      then have "GetStages_inv ext hasStages n (Suc i) (Some obj) rest cur' st' stages"
        using n fresh part cnt
        by (auto simp: GetStages_inv_def st'_def split: prod.splits)
      from Cons.IH [OF this] show ?thesis unfolding eq using False by simp
    qed
  next
    case False
    with prev obtain endPoint where p: "prev = Some endPoint" and pos: "0 < count st"
      by (cases prev) auto
    define st2 where "st2 = (set_mean st)\<lparr>endX := xValue endPoint,
        stageDividerX := (xValue obj + xValue endPoint) / 2\<rparr>"
    define st' where "st' = st2\<lparr>mean := yValue obj, count := 1, sumY := yValue obj,
        startX := xValue obj, firstId := i, stage := stageValue\<rparr>"
    define stages' where "stages' = stages @ [close_stage ext st2 (stageDividerX st2) (i - 1)]"
    define cur' where "cur' = (if hasStages then label else cur)"
    define st3 where "st3 = (set_mean st')\<lparr>endX := xValue obj, stage := stageValue\<rparr>"
    have eq: "GetStages_loop ext hasStages n i prev (row # rest) cur st stages =
        (if rest = []
         then GetStages_loop ext hasStages n (Suc i) (Some obj) rest cur' st3
                (stages' @ [close_stage ext st3 (endX st3) i])
         else GetStages_loop ext hasStages n (Suc i) (Some obj) rest cur' st' stages')"
      using False p unfolding row stageValue_def st'_def cur'_def st3_def st2_def stages'_def
      by (cases hasStages; simp add: Let_def last)
    have fresh': "\<forall>s \<in> set stages'. fresh_stage ext s"
      using fresh cnt pos by (auto simp: stages'_def fresh_stage_def st2_def)
    have part': "partitions 0 stages' i"
      using part cnt pos by (auto simp: stages'_def partitions_append st2_def)
    show ?thesis
    proof (cases "rest = []")
      case True
      have "GetStages_inv ext hasStages n (Suc i) (Some obj) rest cur' st3
                (stages' @ [close_stage ext st3 (endX st3) i])"
        using True n fresh' part'
        by (auto simp: GetStages_inv_def partitions_append st3_def st'_def fresh_stage_def)
      from Cons.IH [OF this] show ?thesis unfolding eq using True by simp
    next
      case False
      then obtain r rs where "rest = r # rs" by (cases rest) auto
      then have "GetStages_inv ext hasStages n (Suc i) (Some obj) rest cur' st' stages'"
        using n fresh' part'
        by (auto simp: GetStages_inv_def st'_def split: prod.splits)
      from Cons.IH [OF this] show ?thesis unfolding eq using False by simp
    qed
  qed
qed

lemma GetStages_gen_partitions:
  assumes "rows \<noteq> []"
  shows "\<exists>stages. GetStages_gen ext hasStages rows = Inr stages
           \<and> partitions 0 stages (length rows) \<and> (\<forall>s \<in> set stages. fresh_stage ext s)"
proof -
  from assms obtain p0 label0 rest where rows: "rows = (p0, label0) # rest"
    by (cases rows) auto
  show ?thesis
    unfolding GetStages_gen_def rows list.case prod.case Let_def
    by (rule GetStages_loop_inv) (simp add: GetStages_inv_def)
qed


lemma partitions_le: "partitions start ss n \<Longrightarrow> start \<le> n"
proof (induction ss arbitrary: start)
  case Nil
  then show ?case by simp
next
  case (Cons t ss)
  then have "Suc (lastId t) \<le> n" by simp
  with Cons.prems show ?case by simp
qed

lemma partitions_bounds:
  assumes "partitions start ss n" and "s \<in> set ss"
  shows "start \<le> firstId s \<and> firstId s \<le> lastId s \<and> lastId s < n"
  using assms
proof (induction ss arbitrary: start)
  case Nil
  then show ?case by simp
next
  case (Cons t ss)
  from Cons.prems(1) have rest: "partitions (Suc (lastId t)) ss n" by simp
  show ?case
  proof (cases "s = t")
    case True
    with partitions_le [OF rest] Cons.prems(1) show ?thesis by simp
  next
    case False
    with Cons.prems have "s \<in> set ss" by simp
    from Cons.IH [OF rest this] Cons.prems(1) show ?thesis by simp
  qed
qed

lemma partitions_counts:
  assumes "partitions start ss n" and "\<forall>s \<in> set ss. count s = Suc (lastId s) - firstId s"
  shows "start + sum_list (map count ss) = n"
  using assms
proof (induction ss arbitrary: start)
  case Nil
  then show ?case by simp
next
  case (Cons t ss)
  from Cons.prems have "partitions (Suc (lastId t)) ss n"
    and "\<forall>s \<in> set ss. count s = Suc (lastId s) - firstId s"
    by simp_all
  then have "Suc (lastId t) + sum_list (map count ss) = n"
    by (rule Cons.IH)
  with Cons.prems show ?case by simp
qed

lemma partitions_unique:
  assumes "partitions start ss n" and "start \<le> j" and "j < n"
  shows "\<exists>!k. k < length ss \<and> in_stage (ss ! k) j"
  using assms
proof (induction ss arbitrary: start)
  case Nil
  then show ?case by simp
next
  case (Cons t ss)
  from Cons.prems(1) have t: "firstId t = start" "firstId t \<le> lastId t"
    and rest: "partitions (Suc (lastId t)) ss n" by simp_all
  show ?case
  proof (cases "j \<le> lastId t")
    case True
    have "in_stage ((t # ss) ! 0) j"
      using True t Cons.prems(2) by (simp add: in_stage_def)
    moreover have "k = 0" if "k < length (t # ss)" "in_stage ((t # ss) ! k) j" for k
    proof (rule ccontr)
      assume "k \<noteq> 0"
      then obtain k' where k: "k = Suc k'" by (cases k) auto
      with that have "ss ! k' \<in> set ss" and "firstId (ss ! k') \<le> j"
        by (simp_all add: in_stage_def)
      with partitions_bounds [OF rest, of "ss ! k'"] True show False by simp
    qed
    ultimately show ?thesis by (intro ex1I [of _ 0]) auto
  next
    case False
    then have "Suc (lastId t) \<le> j" by simp
    from Cons.IH [OF rest this Cons.prems(3)] obtain k where
      k: "k < length ss" "in_stage (ss ! k) j"
      and u: "\<And>k'. k' < length ss \<Longrightarrow> in_stage (ss ! k') j \<Longrightarrow> k' = k"
      by blast
    have "k' = Suc k" if "k' < length (t # ss)" "in_stage ((t # ss) ! k') j" for k'
    proof (cases k')
      case 0
      with that False show ?thesis by (simp add: in_stage_def)
    next
      case (Suc m)
      with that u [of m] show ?thesis by simp
    qed
    with k show ?thesis by (intro ex1I [of _ "Suc k"]) auto
  qed
qed

lemma close_stage_stage [simp]: "stage (close_stage ext st d l) = stage st"
  by (simp add: close_stage_def)

lemma set_mean_stage [simp]: "stage (set_mean st) = stage st"
  by (simp add: set_mean_def)

text \<open>Every stage carries a label of the rows, or the empty label without a stage column.\<close>

lemma GetStages_loop_labels:
  assumes "GetStages_loop ext hasStages n i prev rest cur st stages = Inr out"
    and "\<forall>s \<in> set stages. Q (stage s)" and "Q (stage st)"
    and "\<forall>row \<in> set rest. Q (if hasStages then snd row else [])"
  shows "\<forall>s \<in> set out. Q (stage s)"
  using assms
proof (induction rest arbitrary: i prev cur st stages)
  case Nil
  then show ?case by simp
next
  case (Cons row rest)
  obtain obj label where row: "row = (obj, label)" by (cases row)
  define stageValue where "stageValue = (if hasStages then label else [])"
  from Cons.prems(4) have "Q (if hasStages then snd row else [])"
    by simp
  then have q: "Q stageValue"
    by (cases hasStages) (simp_all add: row stageValue_def)
  from Cons.prems(4) have rest: "\<forall>row \<in> set rest. Q (if hasStages then snd row else [])"
    by simp
  define cur' where "cur' = (if hasStages then label else cur)"
  define step where "step = (if cur = stageValue \<or> \<not> hasStages
       then Inr (st\<lparr>sumY := sumY st + yValue obj, count := count st + 1\<rparr>, stages)
       else (case prev of
               None \<Rightarrow> Inl TypeError
             | Some endPoint \<Rightarrow>
                 let st1 = (set_mean st)\<lparr>endX := xValue endPoint\<rparr>;
                     st2 = st1\<lparr>stageDividerX := (xValue obj + xValue endPoint) / 2\<rparr>
                 in Inr (st2\<lparr>mean := yValue obj, count := 1, sumY := yValue obj,
                             startX := xValue obj, firstId := i, stage := stageValue\<rparr>,
                         stages @ [close_stage ext st2 (stageDividerX st2) (i - 1)])))"
  have unfold: "GetStages_loop ext hasStages n i prev (row # rest) cur st stages =
     (case step of
        Inl e \<Rightarrow> Inl e
      | Inr (st', stages') \<Rightarrow>
          if i = n - 1
          then (let st3 = (set_mean st')\<lparr>endX := xValue obj, stage := stageValue\<rparr>
                in GetStages_loop ext hasStages n (Suc i) (Some obj) rest cur' st3
                     (stages' @ [close_stage ext st3 (endX st3) i]))
          else GetStages_loop ext hasStages n (Suc i) (Some obj) rest cur' st' stages')"
    unfolding row step_def stageValue_def cur'_def GetStages_loop.simps Let_def ..
  from Cons.prems(1) obtain st' stages' where step': "step = Inr (st', stages')"
    unfolding unfold by (cases step) auto
  have inv: "\<forall>s \<in> set stages'. Q (stage s)" "Q (stage st')"
    using step' Cons.prems(2,3) q
    by (auto simp: step_def Let_def split: if_splits option.splits)
  show ?case
  proof (cases "i = n - 1")
    case True
    define st3 where "st3 = (set_mean st')\<lparr>endX := xValue obj, stage := stageValue\<rparr>"
    from Cons.prems(1) have "GetStages_loop ext hasStages n (Suc i) (Some obj) rest cur' st3
                     (stages' @ [close_stage ext st3 (endX st3) i]) = Inr out"
      unfolding unfold step' using True by (simp add: st3_def Let_def)
    moreover have "\<forall>s \<in> set (stages' @ [close_stage ext st3 (endX st3) i]). Q (stage s)"
      "Q (stage st3)"
      using inv q by (simp_all add: st3_def)
    ultimately show ?thesis
      using rest by (rule Cons.IH)
  next
    case False
    from Cons.prems(1) have "GetStages_loop ext hasStages n (Suc i) (Some obj) rest cur' st' stages' = Inr out"
      unfolding unfold step' using False by simp
    then show ?thesis
      using inv rest by (rule Cons.IH)
  qed
qed

lemma GetStages_gen_labels:
  assumes "GetStages_gen ext hasStages rows = Inr stages"
    and "\<forall>row \<in> set rows. Q (if hasStages then snd row else [])"
  shows "\<forall>s \<in> set stages. Q (stage s)"
proof -
  from assms(1) obtain p0 label0 rest where rows: "rows = (p0, label0) # rest"
    by (cases rows) (auto simp: GetStages_gen_def)
  let ?st = "\<lparr>lCL = Num 0, uCL = Num 0, mean = 0, startX = xValue p0, endX = 0, sumY = 0,
                count = 0, stage = (if hasStages then label0 else []), stageDividerX = 0,
                firstId = 0, lastId = 0, \<dots> = ext\<rparr>"
  have 1: "\<forall>s \<in> set ([] :: 'a Stage_scheme list). Q (stage s)"
    by simp
  from assms(2) have "Q (if hasStages then snd (p0, label0) else [])"
    unfolding rows by simp
  then have 2: "Q (stage ?st)"
    by (cases hasStages) simp_all
  have 3: "\<forall>row \<in> set ((p0, label0) # rest). Q (if hasStages then snd row else [])"
    using assms(2) rows by simp
  from assms(1) have "GetStages_loop ext hasStages (length ((p0, label0) # rest)) 0 None
      ((p0, label0) # rest) (if hasStages then label0 else []) ?st [] = Inr stages"
    unfolding GetStages_gen_def rows list.case prod.case Let_def .
  then show ?thesis
    using 1 2 3 by (rule GetStages_loop_labels)
qed

section \<open>Properties of the moving-range limits\<close>

lemma Min_insert_min:
  assumes "finite S"
  shows "Min (insert (min a b) S) = Min (insert a (insert b S))"
  using assms by (cases "S = {}") (simp_all add: min.assoc)

lemma Max_insert_max:
  assumes "finite S"
  shows "Max (insert (max a b) S) = Max (insert a (insert b S))"
  using assms by (cases "S = {}") (simp_all add: max.assoc)

lemma window_loop_min_max:
  assumes "r \<le> e" and "e \<le> length data"
  shows "window_loop data (int e - 1) r (mn, mx) =
     Inr (Min (insert mn ((\<lambda>j. yValue (data ! j)) ` {e - r ..< e})),
          Max (insert mx ((\<lambda>j. yValue (data ! j)) ` {e - r ..< e})))"
  using assms
proof (induction r arbitrary: e mn mx)
  case 0
  then show ?case by simp
next
  case (Suc r)
  let ?y = "\<lambda>j. yValue (data ! j)"
  from Suc.prems have e: "0 < e" "r \<le> e - 1" "e - 1 \<le> length data" by simp_all
  have at: "at_index data (int e - 1) = Some (data ! (e - 1))"
    using Suc.prems e by (simp add: at_index_def nat_diff_distrib)
  have k: "int e - 1 - 1 = int (e - 1) - 1"
    using e by simp
  have split: "{e - Suc r ..< e} = insert (e - 1) {e - 1 - r ..< e - 1}"
    using Suc.prems by auto
  have mn: "(if mn > ?y (e - 1) then ?y (e - 1) else mn) = min mn (?y (e - 1))"
    and mx: "(if mx < ?y (e - 1) then ?y (e - 1) else mx) = max mx (?y (e - 1))"
    by (simp_all add: min_def max_def)
  show ?case
    unfolding window_loop.simps at option.case k mn mx Suc.IH [OF e(2,3)] split
    by (simp add: Min_insert_min Max_insert_max)
qed

lemma window_range:
  assumes "2 \<le> m" and "m \<le> Suc j" and "j < length data"
  shows "\<exists>mn mx. window_loop data (int j) m (yValue (data ! (j - 1)), yValue (data ! (j - 1))) = Inr (mn, mx)
           \<and> \<bar>mx - mn\<bar> = moving_range (\<lambda>j. yValue (data ! j)) m j"
proof -
  let ?y = "\<lambda>j. yValue (data ! j)"
  let ?W = "{Suc j - m .. j}"
  have W: "{Suc j - m ..< Suc j} = ?W" by auto
  have "j - 1 \<in> ?W" using assms by auto
  then have ins: "insert (?y (j - 1)) (?y ` ?W) = ?y ` ?W" by auto
  have "window_loop data (int (Suc j) - 1) m (?y (j - 1), ?y (j - 1)) =
        Inr (Min (?y ` ?W), Max (?y ` ?W))"
    using window_loop_min_max [of m "Suc j" data] assms unfolding W ins by simp
  moreover have "Min (?y ` ?W) \<le> ?y (j - 1)" and "?y (j - 1) \<le> Max (?y ` ?W)"
    using \<open>j - 1 \<in> ?W\<close> by (intro Min_le Max_ge; simp)+
  ultimately show ?thesis
    by (simp add: moving_range_def)
qed

lemma mr_loop_sum:
  assumes "2 \<le> m" and "m \<le> Suc j" and "j + r \<le> length data"
  shows "mr_loop data (int m) (int j) r acc =
           Inr (acc + (\<Sum>i = j ..< j + r. moving_range (\<lambda>j. yValue (data ! j)) m i))"
  using assms(2,3)
proof (induction r arbitrary: j acc)
  case 0
  then show ?case by simp
next
  case (Suc r)
  let ?y = "\<lambda>j. yValue (data ! j)"
  from assms(1) Suc.prems have j: "0 < j" "j < length data" by simp_all
  have at: "at_index data (int j - 1) = Some (data ! (j - 1))"
    using j by (simp add: at_index_def nat_diff_distrib)
  from window_range [OF assms(1) Suc.prems(1) j(2)] obtain mn mx where
    w: "window_loop data (int j) m (?y (j - 1), ?y (j - 1)) = Inr (mn, mx)"
    and d: "\<bar>mx - mn\<bar> = moving_range ?y m j"
    by blast
  have next_j: "int j + 1 = int (Suc j)" by simp
  have "mr_loop data (int m) (int j) (Suc r) acc =
          mr_loop data (int m) (int (Suc j)) r (acc + moving_range ?y m j)"
    unfolding mr_loop.simps at option.case nat_int w sum.case prod.case d next_j ..
  also have "\<dots> = Inr (acc + moving_range ?y m j
        + (\<Sum>i = Suc j ..< Suc j + r. moving_range ?y m i))"
    using Suc.prems by (intro Suc.IH) simp_all
  also have "(\<Sum>i = j ..< j + Suc r. moving_range ?y m i)
        = moving_range ?y m j + (\<Sum>i = Suc j ..< Suc j + r. moving_range ?y m i)"
    by (simp add: sum.atLeast_Suc_lessThan)
  then have "Inr (acc + moving_range ?y m j + (\<Sum>i = Suc j ..< Suc j + r. moving_range ?y m i))
        = (Inr (acc + (\<Sum>i = j ..< j + Suc r. moving_range ?y m i)) :: error + real)"
    by simp
  finally show ?case .
qed


subsection \<open>Limits of one stage\<close>

lemma mRError_fresh:
  assumes "Stage.more s = Stage_MR.fields False"
  shows "\<not> mRError s"
  using assms by (cases s) (simp add: Stage_MR.defs)

lemma calc_stage_short:
  assumes "movingRange vm > int (count s)"
  shows "calc_stage vm s = Inr (s\<lparr>mRError := True\<rparr>)"
  using assms by (simp add: calc_stage_def)

lemma calc_stage_long:
  assumes "2 \<le> movingRange vm" and "movingRange vm \<le> int (count s)"
    and "firstId s \<le> lastId s" and "count s = Suc (lastId s) - firstId s"
    and "lastId s < length (dataPoints vm)"
  shows "calc_stage vm s =
     Inr (s\<lparr>uCL := number_plus (mean s)
                  (mr_offset (standardDeviations vm)
                     (rBar_of (value_at vm) (nat (movingRange vm)) (firstId s) (lastId s))
                     (LookUpd2 (movingRange vm))),
            lCL := number_minus (mean s)
                  (mr_offset (standardDeviations vm)
                     (rBar_of (value_at vm) (nat (movingRange vm)) (firstId s) (lastId s))
                     (LookUpd2 (movingRange vm)))\<rparr>)"
proof -
  define m where "m = nat (movingRange vm)"
  define f where "f = firstId s"
  define l where "l = lastId s"
  have mr: "movingRange vm = int m" and m2: "2 \<le> m"
    using assms(1) by (simp_all add: m_def)
  have mc: "m \<le> Suc l - f"
    using assms(2,4) by (simp add: mr f_def l_def)
  have start: "int f + int m - 1 = int (f + m - 1)"
    using m2 by simp
  have iters: "nat (int l - int (f + m - 1) + 1) = Suc l - (f + m - 1)"
    using m2 mc by simp
  have "mr_loop (dataPoints vm) (int m) (int (f + m - 1)) (Suc l - (f + m - 1)) 0 =
          Inr (0 + (\<Sum>i = f + m - 1 ..< f + m - 1 + (Suc l - (f + m - 1)).
                      moving_range (\<lambda>j. yValue (dataPoints vm ! j)) m i))"
    using m2 mc assms(5) by (intro mr_loop_sum) (simp_all add: l_def)
  moreover have "{f + m - 1 ..< f + m - 1 + (Suc l - (f + m - 1))} = {f + m - 1 .. l}"
    using m2 mc by auto
  moreover have "(\<lambda>j. yValue (dataPoints vm ! j)) = value_at vm"
    by (rule ext) (simp add: value_at_def)
  ultimately have loop: "mr_loop (dataPoints vm) (int m) (int (f + m - 1)) (Suc l - (f + m - 1)) 0 =
          Inr (\<Sum>i = f + m - 1 .. l. moving_range (value_at vm) m i)"
    by simp
  have den: "real_of_int (int (count s) - int m + 1) = real (Suc l - f) - real m + 1"
    using assms(4) by (simp add: f_def l_def)
  have "\<not> int m > int (count s)"
    using assms(2) by (simp add: mr)
  then show ?thesis
    unfolding calc_stage_def Let_def mr f_def [symmetric] l_def [symmetric] start iters loop
      sum.case den nat_int rBar_of_def
    by simp
qed

lemma mr_offset_in_table:
  assumes "1 \<le> mr" and "mr \<le> 50"
  shows "mr_offset numsds rBar (LookUpd2 mr) = Num (numsds * rBar / d2Array ! nat (mr - 1))"
proof -
  have "LookUpd2 mr = Some (d2Array ! nat (mr - 1))" and "1 \<le> d2Array ! nat (mr - 1)"
    using LookUpd2_in_table [OF assms] by simp_all
  then show ?thesis
    by (simp add: mr_offset_def number_div_def)
qed

text \<open>What \<open>CalcStats\<close> does to a stage of \<open>GetStages\<close>.\<close>

lemma calc_stage_ok:
  assumes "2 \<le> movingRange vm" and "movingRange vm \<le> 50" and "stage_ok vm s"
  shows "\<exists>s'. calc_stage vm s = Inr s'
     \<and> firstId s' = firstId s \<and> lastId s' = lastId s \<and> count s' = count s \<and> mean s' = mean s
     \<and> (mRError s' \<longleftrightarrow> int (count s) < movingRange vm)
     \<and> (mRError s' \<longrightarrow> uCL s' = Num 0 \<and> lCL s' = Num 0)
     \<and> (\<not> mRError s' \<longrightarrow>
           uCL s' = Num (mean s + standardDeviations vm
                      * rBar_of (value_at vm) (nat (movingRange vm)) (firstId s) (lastId s)
                      / d2Array ! nat (movingRange vm - 1))
         \<and> lCL s' = Num (mean s - standardDeviations vm
                      * rBar_of (value_at vm) (nat (movingRange vm)) (firstId s) (lastId s)
                      / d2Array ! nat (movingRange vm - 1)))"
proof -
  from assms(3) have ok: "uCL s = Num 0" "lCL s = Num 0" "\<not> mRError s"
    "count s = Suc (lastId s) - firstId s" "firstId s \<le> lastId s"
    "lastId s < length (dataPoints vm)"
    by (simp_all add: stage_ok_def fresh_stage_def mRError_fresh)
  show ?thesis
  proof (cases "movingRange vm > int (count s)")
    case True
    then show ?thesis
      using ok by (simp add: calc_stage_short)
  next
    case False
    then have le: "movingRange vm \<le> int (count s)" by simp
    have "1 \<le> movingRange vm" using assms(1) by simp
    from mr_offset_in_table [OF this assms(2)] show ?thesis
      unfolding calc_stage_long [OF assms(1) le ok(5,4,6)]
      using ok False by simp
  qed
qed

subsection \<open>The loop over the stages\<close>

lemma prev_stage_snoc:
  "i \<le> length ss \<Longrightarrow> prev_stage (ss @ [s]) i = prev_stage ss i"
  by (cases i) (simp_all add: prev_stage_def nth_append)

lemma mean_lines_snoc:
  "mean_lines (ss @ [s]) = mean_lines ss @ [mean_segment (prev_stage ss (length ss)) s]"
  by (simp add: mean_lines_def prev_stage_snoc nth_append)

lemma dividers_snoc:
  "dividers (ss @ [s]) = dividers ss @ [divider_of (prev_stage ss (length ss)) s]"
  by (simp add: dividers_def prev_stage_snoc nth_append)

lemma limit_lines_snoc:
  "limit_lines limit keep (ss @ [s]) =
     limit_lines limit keep ss
     @ (if keep s then [limit_segment (prev_stage ss (length ss)) s (limit s)] else [])"
proof -
  have "filter (\<lambda>i. keep ((ss @ [s]) ! i)) [0 ..< length ss] = filter (\<lambda>i. keep (ss ! i)) [0 ..< length ss]"
    by (rule filter_cong) (simp_all add: nth_append)
  moreover have "map (\<lambda>i. limit_segment (prev_stage (ss @ [s]) i) ((ss @ [s]) ! i) (limit ((ss @ [s]) ! i)))
            (filter (\<lambda>i. keep (ss ! i)) [0 ..< length ss])
      = map (\<lambda>i. limit_segment (prev_stage ss i) (ss ! i) (limit (ss ! i)))
            (filter (\<lambda>i. keep (ss ! i)) [0 ..< length ss])"
    by (rule map_cong) (simp_all add: nth_append prev_stage_snoc)
  ultimately show ?thesis
    by (simp add: limit_lines_def prev_stage_snoc)
qed

lemma prev_stage_last: "prev_stage (ss @ [s]) (length (ss @ [s])) = Some s"
  by (simp add: prev_stage_def)

lemma CalcStats_loop_ok:
  assumes "\<forall>s \<in> set rest. \<exists>s'. calc_stage vm s = Inr s'"
    and "chart_ok (\<lambda>s. \<not> mRError s) ch" and "prev = prev_stage (chartStages ch) (length (chartStages ch))"
  shows "\<exists>ch'. CalcStats_loop vm prev rest (flag, ch) =
                 Inr (flag \<or> (\<exists>s \<in> set rest. movingRange vm > int (count s)), ch')
           \<and> chart_ok (\<lambda>s. \<not> mRError s) ch'
           \<and> chartStages ch' = chartStages ch @ map (\<lambda>s. projr (calc_stage vm s)) rest"
  using assms
proof (induction rest arbitrary: prev flag ch)
  case Nil
  then show ?case by simp
next
  case (Cons s rest)
  from Cons.prems(1) obtain s' where s': "calc_stage vm s = Inr s'" by auto
  let ?ch1 = "\<lparr>chartStages = chartStages ch @ [s'],
              meanLine = meanLine ch @ [mean_segment prev s'],
              uclLines = (if \<not> mRError s' then uclLines ch @ [limit_segment prev s' (uCL s')]
                          else uclLines ch),
              lclLines = (if \<not> mRError s' then lclLines ch @ [limit_segment prev s' (lCL s')]
                          else lclLines ch),
              stageDividers = stageDividers ch @ [divider_of prev s']\<rparr>"
  have 1: "chart_ok (\<lambda>s. \<not> mRError s) ?ch1"
    using Cons.prems(2,3)
    by (simp add: chart_ok_def mean_lines_snoc dividers_snoc limit_lines_snoc)
  have 2: "Some s' = prev_stage (chartStages ?ch1) (length (chartStages ?ch1))"
    by (simp add: prev_stage_def)
  from Cons.prems(1) have 3: "\<forall>s \<in> set rest. \<exists>s'. calc_stage vm s = Inr s'" by simp
  from Cons.IH [OF 3 1 2, of "flag \<or> movingRange vm > int (count s)"] s'
  show ?case by (auto simp: disj_ac)
qed

section \<open>Properties of the standard-deviation limits\<close>

lemma partitions_cong:
  assumes "map firstId ss = map firstId ts" and "map lastId ss = map lastId ts"
  shows "partitions start ss n = partitions start ts n"
  using assms
proof (induction ss arbitrary: ts start)
  case Nil
  then show ?case by simp
next
  case (Cons s ss)
  then obtain t ts' where "ts = t # ts'" by (cases ts) auto
  with Cons show ?case by auto
qed

lemma sumdiff_loop_sum:
  assumes "\<forall>j \<in> set js. j < length data"
  shows "sumdiff_loop data m js (a, b) =
           Inr (a + (\<Sum>j \<leftarrow> js. (yValue (data ! j) - m) * (yValue (data ! j) - m)),
                b + (\<Sum>j \<leftarrow> js. (yValue (data ! j) - m) * (yValue (data ! j) - m)))"
  using assms
  by (induction js arbitrary: a b) (simp_all add: at_index_def Let_def add.assoc)

lemma sd_first_ids:
  assumes "sd_first vm s subGroups = Inr (s', subGroups')"
  shows "firstId s' = firstId s \<and> lastId s' = lastId s \<and> stage s' = stage s
         \<and> (\<not> useSDSubGroups vm \<longrightarrow> count s' = count s \<and> mean s' = mean s)"
  using assms
  by (auto simp: sd_first_def Let_def split: if_splits option.splits sum.splits)

lemma sd_first_loop_ids:
  assumes "sd_first_loop vm stages (acc, subGroups) = Inr (out, subGroups')"
  shows "map firstId out = map firstId (acc @ stages) \<and> map lastId out = map lastId (acc @ stages)
         \<and> (\<not> useSDSubGroups vm \<longrightarrow> map count out = map count (acc @ stages))"
  using assms
proof (induction stages arbitrary: acc subGroups)
  case Nil
  then show ?case by simp
next
  case (Cons s stages)
  then obtain s1 g1 where 1: "sd_first vm s subGroups = Inr (s1, g1)"
    and 2: "sd_first_loop vm stages (acc @ [s1], g1) = Inr (out, subGroups')"
    by (auto split: sum.splits)
  from Cons.IH [OF 2] sd_first_ids [OF 1] show ?case by simp
qed

lemma sd_second_ids:
  assumes "sd_second vm subGroups s = Inr s'"
  shows "firstId s' = firstId s \<and> lastId s' = lastId s \<and> count s' = count s"
  using assms
  by (auto simp: sd_second_def split: if_splits option.splits sum.splits)

lemma sd_second_loop_ids:
  assumes "sd_second_loop vm subGroups prev stages ch = Inr ch'"
  shows "map firstId (chartStages ch') = map firstId (chartStages ch @ stages)
         \<and> map lastId (chartStages ch') = map lastId (chartStages ch @ stages)
         \<and> map count (chartStages ch') = map count (chartStages ch @ stages)"
  using assms
proof (induction stages arbitrary: prev ch)
  case Nil
  then show ?case by simp
next
  case (Cons s stages)
  then obtain s1 where 1: "sd_second vm subGroups s = Inr s1"
    and 2: "sd_second_loop vm subGroups (Some s1) stages
             \<lparr>chartStages = chartStages ch @ [s1],
              meanLine = meanLine ch @ [mean_segment prev s1],
              uclLines = uclLines ch @ [limit_segment prev s1 (uCL s1)],
              lclLines = lclLines ch @ [limit_segment prev s1 (lCL s1)],
              stageDividers = stageDividers ch @ [divider_of prev s1]\<rparr> = Inr ch'"
    by (auto split: sum.splits)
  from Cons.IH [OF 2] sd_second_ids [OF 1] show ?case by simp
qed

text \<open>\<open>CalcStats\<close> keeps the index range of every stage, and without subgroups its count.\<close>

lemma CalcStats_SD_ids:
  assumes "CalcStats_SD vm stages = Inr ch"
  shows "map firstId (chartStages ch) = map firstId stages
         \<and> map lastId (chartStages ch) = map lastId stages
         \<and> (\<not> useSDSubGroups vm \<longrightarrow> map count (chartStages ch) = map count stages)"
proof -
  from assms obtain subGroups stages1 subGroups1 where
    1: "sd_first_loop vm stages ([], subGroups) = Inr (stages1, subGroups1)" and
    2: "sd_second_loop vm subGroups1 None stages1
          \<lparr>chartStages = [], meanLine = [], uclLines = [], lclLines = [], stageDividers = []\<rparr> = Inr ch"
    by (auto simp: CalcStats_SD_def split: sum.splits if_splits)
  from sd_first_loop_ids [OF 1] sd_second_loop_ids [OF 2] show ?thesis by simp
qed

text \<open>Without subgroups \<open>CalcStats\<close> throws nothing when the stages lie inside the data.\<close>

lemma sd_first_loop_total:
  assumes "\<not> useSDSubGroups vm" and "\<forall>s \<in> set stages. lastId s < length (dataPoints vm)"
  shows "\<exists>out. sd_first_loop vm stages (acc, subGroups) = Inr (out, subGroups)"
  using assms(2)
proof (induction stages arbitrary: acc)
  case Nil
  then show ?case by simp
next
  case (Cons s stages)
  have "\<forall>j \<in> set (stage_indices s). j < length (dataPoints vm)"
    using Cons.prems by (auto simp: stage_indices_def)
  from sumdiff_loop_sum [OF this] assms(1) obtain s1 where
    "sd_first vm s subGroups = Inr (s1, subGroups)"
    by (simp add: sd_first_def)
  with Cons show ?case by simp
qed

lemma sd_second_loop_total:
  assumes "\<not> useSDSubGroups vm"
  shows "\<exists>ch'. sd_second_loop vm subGroups prev stages ch = Inr ch'"
  using assms
  by (induction stages arbitrary: prev ch) (simp_all add: sd_second_def)

lemma CalcStats_SD_total:
  assumes "\<not> useSDSubGroups vm" and "\<forall>s \<in> set stages. lastId s < length (dataPoints vm)"
  shows "\<exists>ch. CalcStats_SD vm stages = Inr ch"
proof -
  from sd_first_loop_total [OF assms, of "[]" "[]"] obtain out where
    "sd_first_loop vm stages ([], []) = Inr (out, [])" by blast
  with sd_second_loop_total [OF assms(1), of "[]" None out] assms(1) show ?thesis
    by (auto simp: CalcStats_SD_def)
qed


text \<open>
  With subgroups \<open>CalcStats\<close> throws nothing either, when no label is the name of an
  inherited property.
\<close>

lemma findIndexByKeyValue_Some:
  assumes "v \<in> sg_stage ` set gs"
  shows "\<exists>i. findIndexByKeyValue gs v = Some i \<and> i < length gs \<and> sg_stage (gs ! i) = v"
  using assms by (induction gs) auto

lemma sg_stage_update:
  assumes "i < length gs" and "sg_stage g = sg_stage (gs ! i)"
  shows "map sg_stage (gs[i := g]) = map sg_stage gs"
  using assms by (simp add: map_update list_update_same_conv)

lemma GetUnique_loop_total:
  assumes "\<forall>s \<in> set src. stage s \<notin> set inherited_keys"
    and "set unique = sg_stage ` set groups"
  shows "\<exists>out. GetUnique_loop unique src groups = Inr out
           \<and> sg_stage ` set out = sg_stage ` set groups \<union> stage ` set src"
  using assms
proof (induction src arbitrary: unique groups)
  case Nil
  then show ?case by simp
next
  case (Cons s src)
  from Cons.prems(1) have rest: "\<forall>s \<in> set src. stage s \<notin> set inherited_keys"
    and s: "stage s \<notin> set inherited_keys" by simp_all
  show ?case
  proof (cases "stage s \<in> set unique")
    case False
    let ?groups = "groups @ [\<lparr>sg_mean = mean s, sg_sum = sumY s, sg_count = count s, sg_stage = stage s\<rparr>]"
    have "set (stage s # unique) = sg_stage ` set ?groups"
      using Cons.prems(2) by simp
    from Cons.IH [OF rest this] False s show ?thesis by auto
  next
    case True
    with Cons.prems(2) have "stage s \<in> sg_stage ` set groups" by simp
    from findIndexByKeyValue_Some [OF this] obtain i where
      i: "findIndexByKeyValue groups (stage s) = Some i" "i < length groups"
        "sg_stage (groups ! i) = stage s"
      by blast
    define g1 where "g1 = (groups ! i)\<lparr>sg_sum := sg_sum (groups ! i) + sumY s,
        sg_count := sg_count (groups ! i) + count s\<rparr>"
    define g2 where "g2 = (if sg_count g1 > 0 then g1\<lparr>sg_mean := sg_sum g1 / real (sg_count g1)\<rparr> else g1)"
    have "sg_stage g2 = sg_stage (groups ! i)"
      by (simp add: g2_def g1_def)
    from sg_stage_update [OF i(2) this] have m: "map sg_stage (groups[i := g2]) = map sg_stage groups" .
    then have im: "sg_stage ` set (groups[i := g2]) = sg_stage ` set groups"
      by (metis set_map)
    have "set (stage s # unique) = sg_stage ` set (groups[i := g2])"
      using Cons.prems(2) True im by auto
    from Cons.IH [OF rest this] obtain out where
      "GetUnique_loop (stage s # unique) src (groups[i := g2]) = Inr out"
      "sg_stage ` set out = sg_stage ` set (groups[i := g2]) \<union> stage ` set src"
      by blast
    moreover have "GetUnique_loop unique (s # src) groups =
        GetUnique_loop (stage s # unique) src (groups[i := g2])"
      using True i(1) by (simp add: Let_def g2_def g1_def)
    ultimately show ?thesis
      using im i(3) True Cons.prems(2) by auto
  qed
qed

lemma sd_first_total:
  assumes "useSDSubGroups vm" and "stage s \<in> sg_stage ` set subGroups"
    and "lastId s < length (dataPoints vm)"
  shows "\<exists>s1 g1. sd_first vm s subGroups = Inr (s1, g1)
           \<and> map sg_stage g1 = map sg_stage subGroups"
proof -
  from findIndexByKeyValue_Some [OF assms(2)] obtain i where
    i: "findIndexByKeyValue subGroups (stage s) = Some i" "i < length subGroups"
    by blast
  let ?s1 = "s\<lparr>count := sg_count (subGroups ! i), sumY := sg_sum (subGroups ! i),
                mean := sg_mean (subGroups ! i)\<rparr>"
  have "\<forall>j \<in> set (stage_indices ?s1). j < length (dataPoints vm)"
    using assms(3) by (auto simp: stage_indices_def)
  from sumdiff_loop_sum [OF this] obtain a b where
    "sumdiff_loop (dataPoints vm) (mean ?s1) (stage_indices ?s1) (0, sg_sum (subGroups ! i)) = Inr (a, b)"
    by blast
  then have "sd_first vm s subGroups =
      Inr (?s1, subGroups[i := (subGroups ! i)\<lparr>sg_sum := b\<rparr>])"
    using assms(1) i(1) by (simp add: sd_first_def Let_def)
  moreover have "map sg_stage (subGroups[i := (subGroups ! i)\<lparr>sg_sum := b\<rparr>]) = map sg_stage subGroups"
    using i(2) by (intro sg_stage_update) simp_all
  ultimately show ?thesis by blast
qed

lemma sd_first_loop_total_subgroups:
  assumes "useSDSubGroups vm" and "\<forall>s \<in> set stages. stage s \<in> sg_stage ` set subGroups"
    and "\<forall>s \<in> set stages. lastId s < length (dataPoints vm)"
  shows "\<exists>out g. sd_first_loop vm stages (acc, subGroups) = Inr (out, g)
           \<and> map sg_stage g = map sg_stage subGroups
           \<and> map stage out = map stage (acc @ stages)"
  using assms(2,3)
proof (induction stages arbitrary: acc subGroups)
  case Nil
  then show ?case by simp
next
  case (Cons s stages)
  from sd_first_total [OF assms(1), of s subGroups] Cons.prems obtain s1 g1 where
    1: "sd_first vm s subGroups = Inr (s1, g1)" and 2: "map sg_stage g1 = map sg_stage subGroups"
    by auto
  from 2 have "sg_stage ` set g1 = sg_stage ` set subGroups" by (metis set_map)
  with Cons.prems have "\<forall>s \<in> set stages. stage s \<in> sg_stage ` set g1"
    and "\<forall>s \<in> set stages. lastId s < length (dataPoints vm)" by simp_all
  from Cons.IH [OF this, of "acc @ [s1]"] obtain out g where
    "sd_first_loop vm stages (acc @ [s1], g1) = Inr (out, g)"
    "map sg_stage g = map sg_stage g1" "map stage out = map stage ((acc @ [s1]) @ stages)"
    by blast
  with 1 2 sd_first_ids [OF 1] show ?case by simp
qed

lemma sd_second_loop_total_subgroups:
  assumes "\<forall>s \<in> set stages. stage s \<in> sg_stage ` set subGroups"
  shows "\<exists>ch'. sd_second_loop vm subGroups prev stages ch = Inr ch'"
  using assms
proof (induction stages arbitrary: prev ch)
  case Nil
  then show ?case by simp
next
  case (Cons s stages)
  from Cons.prems have "stage s \<in> sg_stage ` set subGroups" by simp
  from findIndexByKeyValue_Some [OF this] obtain i where
    "findIndexByKeyValue subGroups (stage s) = Some i" by blast
  then have "\<exists>s1. sd_second vm subGroups s = Inr s1"
    by (cases "useSDSubGroups vm") (simp_all add: sd_second_def)
  then obtain s1 where "sd_second vm subGroups s = Inr s1" ..
  with Cons show ?case by simp
qed

lemma CalcStats_SD_total_subgroups:
  assumes "\<forall>s \<in> set stages. stage s \<notin> set inherited_keys"
    and "\<forall>s \<in> set stages. lastId s < length (dataPoints vm)"
  shows "\<exists>ch. CalcStats_SD vm stages = Inr ch"
proof (cases "useSDSubGroups vm")
  case False
  then show ?thesis using CalcStats_SD_total assms(2) by blast
next
  case True
  from GetUnique_loop_total [OF assms(1), of "[]" "[]"] obtain groups where
    g: "GetUnique stages = Inr groups" "sg_stage ` set groups = stage ` set stages"
    by (auto simp: GetUnique_def)
  then have "\<forall>s \<in> set stages. stage s \<in> sg_stage ` set groups" by simp
  from sd_first_loop_total_subgroups [OF True this assms(2), of "[]"] obtain out g1 where
    1: "sd_first_loop vm stages ([], groups) = Inr (out, g1)"
    and 2: "map sg_stage g1 = map sg_stage groups" and 3: "map stage out = map stage stages"
    by auto
  have "sg_stage ` set g1 = stage ` set out"
    using 2 3 g(2) by (metis set_map)
  then have "\<forall>s \<in> set out. stage s \<in> sg_stage ` set g1" by simp
  from sd_second_loop_total_subgroups [OF this] obtain ch where
    "sd_second_loop vm g1 None out
       \<lparr>chartStages = [], meanLine = [], uclLines = [], lclLines = [], stageDividers = []\<rparr> = Inr ch"
    by blast
  with True g(1) 1 show ?thesis
    by (simp add: CalcStats_SD_def)
qed

subsection \<open>The counts of the subgroups\<close>

lemma findIndexByKeyValue_SomeD:
  assumes "findIndexByKeyValue gs l = Some i"
  shows "i < length gs \<and> sg_stage (gs ! i) = l"
  using assms by (induction gs arbitrary: i) (auto split: if_splits)

lemma findIndexByKeyValue_None: "findIndexByKeyValue gs l = None \<longleftrightarrow> l \<notin> sg_stage ` set gs"
  by (induction gs) auto

lemma findIndexByKeyValue_cong:
  assumes "map sg_stage gs = map sg_stage hs"
  shows "findIndexByKeyValue gs l = findIndexByKeyValue hs l"
  using assms
proof (induction gs arbitrary: hs)
  case Nil
  then show ?case by simp
next
  case (Cons g gs)
  then obtain h hs' where hs: "hs = h # hs'" by (cases hs) auto
  with Cons.prems have "sg_stage g = sg_stage h" "map sg_stage gs = map sg_stage hs'"
    by simp_all
  with Cons.IH [of hs'] hs show ?case by simp
qed

lemma findIndexByKeyValue_append:
  "findIndexByKeyValue (gs @ [g]) l =
     (case findIndexByKeyValue gs l of
        Some i \<Rightarrow> Some i
      | None \<Rightarrow> if sg_stage g = l then Some (length gs) else None)"
  by (induction gs) (auto split: option.splits)

lemma subgroup_count_cong:
  assumes "map sg_stage gs = map sg_stage hs" and "map sg_count gs = map sg_count hs"
  shows "subgroup_count gs l = subgroup_count hs l"
proof (cases "findIndexByKeyValue gs l")
  case None
  with findIndexByKeyValue_cong [OF assms(1), of l] show ?thesis
    by (simp add: subgroup_count_def)
next
  case (Some i)
  from findIndexByKeyValue_SomeD [OF Some] have i: "i < length gs" by simp
  have "sg_count (gs ! i) = map sg_count gs ! i" using i by simp
  also have "\<dots> = map sg_count hs ! i" using assms(2) by simp
  also have "\<dots> = sg_count (hs ! i)"
    using i assms(1) by (metis length_map nth_map)
  finally show ?thesis
    using Some findIndexByKeyValue_cong [OF assms(1), of l] by (simp add: subgroup_count_def)
qed

lemma subgroup_count_append:
  assumes "sg_stage g \<notin> sg_stage ` set gs"
  shows "subgroup_count (gs @ [g]) l
           = subgroup_count gs l + (if sg_stage g = l then sg_count g else 0)"
proof (cases "findIndexByKeyValue gs l")
  case None
  then show ?thesis
    by (simp add: subgroup_count_def findIndexByKeyValue_append)
next
  case (Some i)
  from findIndexByKeyValue_SomeD [OF Some] have i: "i < length gs" "sg_stage (gs ! i) = l"
    by simp_all
  then have "l \<in> sg_stage ` set gs" by (metis imageI nth_mem)
  with assms have "sg_stage g \<noteq> l" by auto
  with Some i(1) show ?thesis
    by (simp add: subgroup_count_def findIndexByKeyValue_append nth_append)
qed

lemma subgroup_count_update:
  assumes "findIndexByKeyValue gs k = Some i" and "sg_stage g = k"
  shows "subgroup_count (gs[i := g]) l
           = (if l = k then sg_count g else subgroup_count gs l)"
proof -
  from findIndexByKeyValue_SomeD [OF assms(1)] have i: "i < length gs" "sg_stage (gs ! i) = k"
    by simp_all
  with assms(2) have m: "map sg_stage (gs[i := g]) = map sg_stage gs"
    by (intro sg_stage_update) simp_all
  note f = findIndexByKeyValue_cong [OF m]
  show ?thesis
  proof (cases "l = k")
    case True
    with f [of l] assms(1) i(1) show ?thesis by (simp add: subgroup_count_def)
  next
    case False
    show ?thesis
    proof (cases "findIndexByKeyValue gs l")
      case None
      with f [of l] False show ?thesis by (simp add: subgroup_count_def)
    next
      case (Some j)
      from findIndexByKeyValue_SomeD [OF Some] i(2) False have "j \<noteq> i" by auto
      with f [of l] Some False show ?thesis by (simp add: subgroup_count_def)
    qed
  qed
qed

lemma label_count_Cons:
  "label_count (s # ss) l = (if stage s = l then count s else 0) + label_count ss l"
  by (simp add: label_count_def)

lemma GetUnique_loop_counts:
  assumes "GetUnique_loop unique src groups = Inr out"
    and "set unique = sg_stage ` set groups"
  shows "subgroup_count out l = subgroup_count groups l + label_count src l"
  using assms
proof (induction src arbitrary: unique groups)
  case Nil
  then show ?case by (simp add: label_count_def)
next
  case (Cons s src)
  show ?case
  proof (cases "stage s \<notin> set unique \<and> stage s \<notin> set inherited_keys")
    case True
    let ?g = "\<lparr>sg_mean = mean s, sg_sum = sumY s, sg_count = count s, sg_stage = stage s\<rparr>"
    from True Cons.prems(1) have run: "GetUnique_loop (stage s # unique) src (groups @ [?g]) = Inr out"
      by simp
    have inv: "set (stage s # unique) = sg_stage ` set (groups @ [?g])"
      using Cons.prems(2) by simp
    have new: "sg_stage ?g \<notin> sg_stage ` set groups"
      using True Cons.prems(2) by simp
    from Cons.IH [OF run inv] subgroup_count_append [OF new, of l] show ?thesis
      by (simp add: label_count_Cons)
  next
    case False
    with Cons.prems(1) obtain index where
      ix: "findIndexByKeyValue groups (stage s) = Some index"
      by (cases "findIndexByKeyValue groups (stage s)") auto
    from findIndexByKeyValue_SomeD [OF ix] have i: "index < length groups"
      "sg_stage (groups ! index) = stage s" by simp_all
    define g1 where "g1 = (groups ! index)\<lparr>sg_sum := sg_sum (groups ! index) + sumY s,
        sg_count := sg_count (groups ! index) + count s\<rparr>"
    define g2 where "g2 = (if sg_count g1 > 0 then g1\<lparr>sg_mean := sg_sum g1 / real (sg_count g1)\<rparr> else g1)"
    have g2: "sg_stage g2 = stage s" "sg_count g2 = sg_count (groups ! index) + count s"
      using i(2) by (simp_all add: g2_def g1_def)
    have "GetUnique_loop unique (s # src) groups =
        GetUnique_loop (stage s # unique) src (groups[index := g2])"
      by (simp only: GetUnique_loop.simps False if_False ix option.case Let_def g2_def g1_def)
    with Cons.prems(1) have run:
      "GetUnique_loop (stage s # unique) src (groups[index := g2]) = Inr out"
      by simp
    have "map sg_stage (groups[index := g2]) = map sg_stage groups"
      using i g2(1) by (intro sg_stage_update) simp_all
    then have im: "sg_stage ` set (groups[index := g2]) = sg_stage ` set groups"
      by (metis set_map)
    have "stage s \<in> sg_stage ` set groups"
      using i by (metis imageI nth_mem)
    with im Cons.prems(2) have inv: "set (stage s # unique) = sg_stage ` set (groups[index := g2])"
      by auto
    have here: "subgroup_count groups (stage s) = sg_count (groups ! index)"
      using ix by (simp add: subgroup_count_def)
    from Cons.IH [OF run inv] subgroup_count_update [OF ix g2(1), of l] g2(2) here
    show ?thesis
      by (auto simp: label_count_Cons)
  qed
qed

lemma GetUnique_counts:
  assumes "GetUnique stages = Inr groups"
  shows "subgroup_count groups l = label_count stages l"
  using GetUnique_loop_counts [of "[]" stages "[]" groups l] assms
  by (simp add: GetUnique_def subgroup_count_def)

lemma sd_first_counts:
  assumes "useSDSubGroups vm" and "sd_first vm s subGroups = Inr (s1, g1)"
  shows "count s1 = subgroup_count subGroups (stage s) \<and> stage s1 = stage s
         \<and> map sg_stage g1 = map sg_stage subGroups
         \<and> map sg_count g1 = map sg_count subGroups"
proof -
  from assms obtain i where ix: "findIndexByKeyValue subGroups (stage s) = Some i"
    by (cases "findIndexByKeyValue subGroups (stage s)") (auto simp: sd_first_def)
  from findIndexByKeyValue_SomeD [OF ix] have i: "i < length subGroups" by simp
  from assms ix obtain b where
    s1: "s1 = s\<lparr>count := sg_count (subGroups ! i), sumY := sg_sum (subGroups ! i),
                mean := sg_mean (subGroups ! i)\<rparr>"
    and g1: "g1 = subGroups[i := (subGroups ! i)\<lparr>sg_sum := b\<rparr>]"
    by (auto simp: sd_first_def Let_def split: sum.splits)
  have "map sg_stage g1 = map sg_stage subGroups" "map sg_count g1 = map sg_count subGroups"
    unfolding g1 using i by (simp_all add: map_update list_update_same_conv)
  with s1 ix show ?thesis by (simp add: subgroup_count_def)
qed

lemma sd_first_loop_counts:
  assumes "useSDSubGroups vm"
    and "sd_first_loop vm stages (acc, subGroups) = Inr (out, g)"
  shows "map count out = map count acc @ map (\<lambda>s. subgroup_count subGroups (stage s)) stages
         \<and> map stage out = map stage (acc @ stages)"
  using assms(2)
proof (induction stages arbitrary: acc subGroups)
  case Nil
  then show ?case by simp
next
  case (Cons s stages)
  then obtain s1 g1 where 1: "sd_first vm s subGroups = Inr (s1, g1)"
    and 2: "sd_first_loop vm stages (acc @ [s1], g1) = Inr (out, g)"
    by (auto split: sum.splits)
  from sd_first_counts [OF assms(1) 1] have c: "count s1 = subgroup_count subGroups (stage s)"
    "stage s1 = stage s" "map sg_stage g1 = map sg_stage subGroups"
    "map sg_count g1 = map sg_count subGroups" by simp_all
  have "subgroup_count g1 l = subgroup_count subGroups l" for l
    using c(3,4) by (rule subgroup_count_cong)
  with Cons.IH [OF 2] c(1,2) show ?case by simp
qed

lemma sd_second_stage:
  assumes "sd_second vm subGroups s = Inr s'"
  shows "stage s' = stage s"
  using assms by (auto simp: sd_second_def split: if_splits option.splits sum.splits)

lemma sd_second_loop_stage:
  assumes "sd_second_loop vm subGroups prev stages ch = Inr ch'"
  shows "map stage (chartStages ch') = map stage (chartStages ch @ stages)"
  using assms
proof (induction stages arbitrary: prev ch)
  case Nil
  then show ?case by simp
next
  case (Cons s stages)
  then obtain s1 where 1: "sd_second vm subGroups s = Inr s1" by (auto split: sum.splits)
  with Cons.prems have 2: "sd_second_loop vm subGroups (Some s1) stages
            \<lparr>chartStages = chartStages ch @ [s1],
             meanLine = meanLine ch @ [mean_segment prev s1],
             uclLines = uclLines ch @ [limit_segment prev s1 (uCL s1)],
             lclLines = lclLines ch @ [limit_segment prev s1 (lCL s1)],
             stageDividers = stageDividers ch @ [divider_of prev s1]\<rparr> = Inr ch'"
    by simp
  from Cons.IH [OF 2] sd_second_stage [OF 1] show ?case by simp
qed

lemma CalcStats_SD_counts:
  assumes "useSDSubGroups vm" and "CalcStats_SD vm stages = Inr ch"
  shows "map count (chartStages ch) = map (\<lambda>s. label_count stages (stage s)) stages
         \<and> map stage (chartStages ch) = map stage stages"
proof -
  from assms obtain groups stages1 subGroups1 where
    0: "GetUnique stages = Inr groups" and
    1: "sd_first_loop vm stages ([], groups) = Inr (stages1, subGroups1)" and
    2: "sd_second_loop vm subGroups1 None stages1
          \<lparr>chartStages = [], meanLine = [], uclLines = [], lclLines = [], stageDividers = []\<rparr> = Inr ch"
    by (auto simp: CalcStats_SD_def split: sum.splits)
  from sd_first_loop_counts [OF assms(1) 1] GetUnique_counts [OF 0]
  have a: "map count stages1 = map (\<lambda>s. label_count stages (stage s)) stages"
    "map stage stages1 = map stage stages" by simp_all
  from sd_second_loop_ids [OF 2] sd_second_loop_stage [OF 2]
  have "map count (chartStages ch) = map count stages1"
    "map stage (chartStages ch) = map stage stages1" by simp_all
  with a show ?thesis by simp
qed

lemma label_points_cong:
  assumes "map stage ss = map stage ts" and "map firstId ss = map firstId ts"
    and "map lastId ss = map lastId ts"
  shows "label_points ss l = label_points ts l"
  using assms
proof (induction ss arbitrary: ts)
  case Nil
  then show ?case by (simp add: label_points_def)
next
  case (Cons s ss)
  then obtain t ts' where ts: "ts = t # ts'" by (cases ts) auto
  with Cons.prems Cons.IH [of ts'] show ?case by (simp add: label_points_def)
qed

lemma label_count_points:
  assumes "\<forall>s \<in> set ss. count s = Suc (lastId s) - firstId s"
  shows "label_count ss l = label_points ss l"
  using assms by (induction ss) (simp_all add: label_count_def label_points_def)

section \<open>Properties of the rule evaluation\<close>

lemma at_index_nat: "at_index xs (int j) = (if j < length xs then Some (xs ! j) else None)"
  by (simp add: at_index_def)

lemma DrawRulePoints_fields [simp]:
  "meanPoints (DrawRulePoints ps st) = meanPoints st"
  "consecIncPoints (DrawRulePoints ps st) = consecIncPoints st"
  "consecDecPoints (DrawRulePoints ps st) = consecDecPoints st"
  "consecutiveUPoints (DrawRulePoints ps st) = consecutiveUPoints st"
  "consecutiveLPoints (DrawRulePoints ps st) = consecutiveLPoints st"
  "coloured (DrawRulePoints ps st) = coloured st @ ps"
  by (simp_all add: DrawRulePoints_def)

lemma rule1_point_fields [simp]:
  "meanPoints (rule1_point s y j st) = meanPoints st @ (if out_of_limits s y then [j] else [])"
  "consecIncPoints (rule1_point s y j st) = consecIncPoints st"
  "consecDecPoints (rule1_point s y j st) = consecDecPoints st"
  "consecutiveUPoints (rule1_point s y j st) = consecutiveUPoints st"
  "consecutiveLPoints (rule1_point s y j st) = consecutiveLPoints st"
  "coloured (rule1_point s y j st) = coloured st"
  by (simp_all add: rule1_point_def)

lemma rule2_point_fields [simp]:
  "meanPoints (rule2_point p y j st) = meanPoints st"
  "consecutiveUPoints (rule2_point p y j st) = consecutiveUPoints st"
  "consecutiveLPoints (rule2_point p y j st) = consecutiveLPoints st"
  by (simp_all add: rule2_point_def Let_def)

lemma rule3_point_fields [simp]:
  "meanPoints (rule3_point s y j st) = meanPoints st"
  "consecIncPoints (rule3_point s y j st) = consecIncPoints st"
  "consecDecPoints (rule3_point s y j st) = consecDecPoints st"
  by (simp_all add: rule3_point_def)

lemma rule2_point_coloured: "set (coloured st) \<subseteq> set (coloured (rule2_point p y j st))"
  by (auto simp: rule2_point_def Let_def)

lemma rule3_point_coloured: "set (coloured st) \<subseteq> set (coloured (rule3_point s y j st))"
  by (auto simp: rule3_point_def)

text \<open>The body of the inner loop succeeds exactly when it reads nothing or \<open>j\<close> is an index.\<close>

lemma rule_point_Inr:
  assumes "j < length (dataPoints vm)"
  shows "rule_point vm s j st =
     Inr (let y = value_at vm j;
              st1 = (if runRule1 vm then rule1_point s y j st else st);
              st2 = (if runRule2 vm then rule2_point (value_at vm (j - 1)) y j st1 else st1)
          in if runRule3 vm then rule3_point s y j st2 else st2)"
  using assms by (simp add: rule_point_def at_index_nat value_at_def Let_def)

lemma rule_point_meanPoints:
  assumes "rule_point vm s j st = Inr st'"
  shows "meanPoints st' = meanPoints st @ (if runRule1 vm \<and> out_of_limits s (value_at vm j) then [j] else [])"
  using assms
  by (auto simp: rule_point_def at_index_nat value_at_def Let_def split: if_splits)

lemma rule_point_coloured:
  assumes "rule_point vm s j st = Inr st'"
  shows "set (coloured st) \<subseteq> set (coloured st')"
proof (cases "j < length (dataPoints vm)")
  case True
  show ?thesis
    using assms rule2_point_coloured rule3_point_coloured
    unfolding rule_point_Inr [OF True] Let_def
    by (fastforce split: if_splits)
next
  case False
  with assms show ?thesis
    by (auto simp: rule_point_def at_index_nat split: if_splits)
qed

lemma rule_points_meanPoints:
  assumes "rule_points vm s js st = Inr st'"
  shows "meanPoints st' = meanPoints st @ (if runRule1 vm then filter (\<lambda>j. out_of_limits s (value_at vm j)) js else [])"
  using assms
proof (induction js arbitrary: st)
  case Nil
  then show ?case by simp
next
  case (Cons j js)
  then obtain st1 where 1: "rule_point vm s j st = Inr st1" and 2: "rule_points vm s js st1 = Inr st'"
    by (auto split: sum.splits)
  show ?case
    using Cons.IH [OF 2] rule_point_meanPoints [OF 1] by simp
qed

lemma rule_points_coloured:
  assumes "rule_points vm s js st = Inr st'"
  shows "set (coloured st) \<subseteq> set (coloured st')"
  using assms
proof (induction js arbitrary: st)
  case Nil
  then show ?case by simp
next
  case (Cons j js)
  then obtain st1 where 1: "rule_point vm s j st = Inr st1" and 2: "rule_points vm s js st1 = Inr st'"
    by (auto split: sum.splits)
  show ?case
    using Cons.IH [OF 2] rule_point_coloured [OF 1] by blast
qed

lemma rule_points_total:
  assumes "\<forall>j \<in> set js. j < length (dataPoints vm)"
  shows "\<exists>st'. rule_points vm s js st = Inr st'"
  using assms
proof (induction js arbitrary: st)
  case Nil
  then show ?case by simp
next
  case (Cons j js)
  then show ?case by (simp add: rule_point_Inr)
qed

lemma stage_end_coloured:
  "set (coloured st) \<union> set (meanPoints st) \<subseteq> set (coloured (stage_end st))"
  by (auto simp: stage_end_def Let_def)

lemma stage_end_meanPoints [simp]: "meanPoints (stage_end st) = []"
  by (auto simp: stage_end_def Let_def)

lemma rule_stages_coloured:
  assumes "rule_stages vm ss st = Inr st'"
  shows "set (coloured st) \<subseteq> set (coloured st')"
  using assms
proof (induction ss arbitrary: st)
  case Nil
  then show ?case by simp
next
  case (Cons s ss)
  then obtain st1 where 1: "rule_points vm s (stage_indices s) st = Inr st1"
    and 2: "rule_stages vm ss (stage_end st1) = Inr st'"
    by (auto split: sum.splits)
  show ?case
    using Cons.IH [OF 2] rule_points_coloured [OF 1] stage_end_coloured [of st1] by blast
qed

lemma stage_indices_set [simp]: "j \<in> set (stage_indices s) \<longleftrightarrow> in_stage s j"
  by (auto simp: stage_indices_def in_stage_def)

lemma rule_stages_total:
  assumes "\<forall>s \<in> set ss. lastId s < length (dataPoints vm)"
  shows "\<exists>st'. rule_stages vm ss st = Inr st'"
  using assms
proof (induction ss arbitrary: st)
  case Nil
  then show ?case by simp
next
  case (Cons s ss)
  have "\<forall>j \<in> set (stage_indices s). j < length (dataPoints vm)"
    using Cons.prems by (auto simp: in_stage_def)
  from rule_points_total [OF this] obtain st1
    where "rule_points vm s (stage_indices s) st = Inr st1" by blast
  then show ?case using Cons by simp
qed

text \<open>With Rule 1 enabled every point outside the limits of its stage is coloured.\<close>

lemma rule_stages_rule1:
  assumes "rule_stages vm ss st = Inr st'" and "runRule1 vm"
    and "s \<in> set ss" and "in_stage s j" and "out_of_limits s (value_at vm j)"
  shows "j \<in> set (coloured st')"
  using assms(1,3)
proof (induction ss arbitrary: st)
  case Nil
  then show ?case by simp
next
  case (Cons t ss)
  then obtain st1 where 1: "rule_points vm t (stage_indices t) st = Inr st1"
    and 2: "rule_stages vm ss (stage_end st1) = Inr st'"
    by (auto split: sum.splits)
  show ?case
  proof (cases "s = t")
    case True
    have "j \<in> set (meanPoints st1)"
      using rule_points_meanPoints [OF 1] assms(2,4,5) True by simp
    then have "j \<in> set (coloured (stage_end st1))"
      using stage_end_coloured [of st1] by blast
    then show ?thesis
      using rule_stages_coloured [OF 2] by blast
  next
    case False
    with Cons.prems have "s \<in> set ss" by simp
    from Cons.IH [OF 2 this] show ?thesis .
  qed
qed


text \<open>With only Rule 1 enabled nothing else is coloured.\<close>

lemma rule_points_only_rule1:
  assumes "\<not> runRule2 vm" and "\<not> runRule3 vm" and "rule_points vm s js st = Inr st'"
  shows "idle st' = idle st \<and> coloured st' = coloured st"
  using assms(3)
proof (induction js arbitrary: st)
  case Nil
  then show ?case by simp
next
  case (Cons j js)
  then obtain st1 where 1: "rule_point vm s j st = Inr st1" and 2: "rule_points vm s js st1 = Inr st'"
    by (auto split: sum.splits)
  from 1 assms(1,2) have "idle st1 = idle st \<and> coloured st1 = coloured st"
    by (auto simp: rule_point_def at_index_nat idle_def Let_def split: if_splits)
  with Cons.IH [OF 2] show ?case by simp
qed

lemma stage_end_idle:
  assumes "idle st"
  shows "idle (stage_end st) \<and> coloured (stage_end st) = coloured st @ meanPoints st"
  using assms by (auto simp: stage_end_def idle_def Let_def)

lemma rule_stages_only_rule1:
  assumes "runRule1 vm" and "\<not> runRule2 vm" and "\<not> runRule3 vm"
    and "rule_stages vm ss st = Inr st'" and "idle st" and "meanPoints st = []"
  shows "coloured st' = coloured st
           @ concat (map (\<lambda>s. filter (\<lambda>j. out_of_limits s (value_at vm j)) (stage_indices s)) ss)"
  using assms(4-6)
proof (induction ss arbitrary: st)
  case Nil
  then show ?case by simp
next
  case (Cons s ss)
  then obtain st1 where 1: "rule_points vm s (stage_indices s) st = Inr st1"
    and 2: "rule_stages vm ss (stage_end st1) = Inr st'"
    by (auto split: sum.splits)
  have a: "idle st1" "coloured st1 = coloured st"
    using rule_points_only_rule1 [OF assms(2,3) 1] Cons.prems(2) by simp_all
  have b: "meanPoints st1 = filter (\<lambda>j. out_of_limits s (value_at vm j)) (stage_indices s)"
    using rule_points_meanPoints [OF 1] assms(1) Cons.prems(3) by simp
  have c: "idle (stage_end st1)" "coloured (stage_end st1) = coloured st1 @ meanPoints st1"
    using stage_end_idle [OF a(1)] by simp_all
  show ?case
    using Cons.IH [OF 2 c(1)] a b c by simp
qed

lemma out_of_limits_Num:
  assumes "uCL s = Num u" and "lCL s = Num l"
  shows "out_of_limits s y \<longleftrightarrow> y > u \<or> y < l"
  using assms by (simp add: out_of_limits_def)

subsection \<open>Trends\<close>

lemma run_on_iff: "run_on R y a b \<longleftrightarrow> (\<forall>k. a < k \<and> k \<le> b \<longrightarrow> R (y (k - 1)) (y k))"
  by (auto simp: run_on_def)

lemma long_runs_iff:
  "i \<in> long_runs R y f e \<longleftrightarrow>
     (\<exists>a b. f \<le> a \<and> a \<le> i \<and> i \<le> b \<and> b < e \<and> a + 5 \<le> b \<and> run_on R y a b)"
  unfolding long_runs_def mem_Collect_eq Bex_def atLeastAtMost_iff atLeastLessThan_iff
  by blast

lemma run_inv_first: "run_inv R y f (Suc f) [f] f"
  by (auto simp: run_inv_def run_on_iff)

lemma run_inv_keep:
  assumes "run_inv R y f j points a" and "R (y (j - 1)) (y j)"
  shows "run_inv R y f (Suc j) (points @ [j]) a"
proof -
  from assms(1) have a: "f \<le> a" "a < j" "points = [a ..< j]" "run_on R y a (j - 1)"
    "a = f \<or> \<not> R (y (a - 1)) (y a)"
    by (simp_all add: run_inv_def)
  have "run_on R y a j"
    unfolding run_on_iff
  proof (intro allI impI)
    fix k assume k: "a < k \<and> k \<le> j"
    show "R (y (k - 1)) (y k)"
    proof (cases "k = j")
      case True
      with assms(2) show ?thesis by simp
    next
      case False
      with k have "a < k \<and> k \<le> j - 1" by arith
      with a(4) show ?thesis unfolding run_on_iff by blast
    qed
  qed
  with a show ?thesis by (simp add: run_inv_def)
qed

lemma run_inv_break:
  assumes "f \<le> j" and "j = f \<or> \<not> R (y (j - 1)) (y j)"
  shows "run_inv R y f (Suc j) [j] j"
  using assms by (auto simp: run_inv_def run_on_iff)

lemma long_runs_extend:
  assumes "run_inv R y f j points a"
  shows "long_runs R y f j = long_runs R y f a \<union> (if 5 < j - a then {a ..< j} else {})"
proof -
  from assms have a: "f \<le> a" "a < j" "run_on R y a (j - 1)"
    and brk: "a = f \<or> \<not> R (y (a - 1)) (y a)"
    by (simp_all add: run_inv_def)
  have no_cross: "\<not> (a' < a \<and> a \<le> b')" if "f \<le> a'" "run_on R y a' b'" for a' b'
  proof
    assume c: "a' < a \<and> a \<le> b'"
    with that(2) have "R (y (a - 1)) (y a)" by (simp add: run_on_iff)
    moreover from c that(1) have "a \<noteq> f" by simp
    ultimately show False using brk by simp
  qed
  show ?thesis
  proof (intro set_eqI iffI)
    fix i assume "i \<in> long_runs R y f j"
    then obtain a' b' where r: "f \<le> a'" "a' \<le> i" "i \<le> b'" "b' < j" "a' + 5 \<le> b'" "run_on R y a' b'"
      by (auto simp: long_runs_iff)
    show "i \<in> long_runs R y f a \<union> (if 5 < j - a then {a ..< j} else {})"
    proof (cases "i < a")
      case True
      with no_cross [OF r(1,6)] r(2) have "b' < a" by auto
      with r have "f \<le> a' \<and> a' \<le> i \<and> i \<le> b' \<and> b' < a \<and> a' + 5 \<le> b' \<and> run_on R y a' b'"
        by simp
      then have "i \<in> long_runs R y f a" unfolding long_runs_iff by blast
      then show ?thesis by simp
    next
      case False
      with no_cross [OF r(1,6)] r(3) have "a \<le> a'" by auto
      with r False show ?thesis by auto
    qed
  next
    fix i assume "i \<in> long_runs R y f a \<union> (if 5 < j - a then {a ..< j} else {})"
    then consider "i \<in> long_runs R y f a" | "5 < j - a" "a \<le> i" "i < j"
      by (auto split: if_splits)
    then show "i \<in> long_runs R y f j"
    proof cases
      case 1
      then obtain a' b' where "f \<le> a'" "a' \<le> i" "i \<le> b'" "b' < a" "a' + 5 \<le> b'" "run_on R y a' b'"
        unfolding long_runs_iff by blast
      with a(2) have "f \<le> a' \<and> a' \<le> i \<and> i \<le> b' \<and> b' < j \<and> a' + 5 \<le> b' \<and> run_on R y a' b'"
        by simp
      then show ?thesis unfolding long_runs_iff by blast
    next
      case 2
      have "f \<le> a \<and> a \<le> i \<and> i \<le> j - 1 \<and> j - 1 < j \<and> a + 5 \<le> j - 1 \<and> run_on R y a (j - 1)"
        using 2 a by auto
      then show ?thesis unfolding long_runs_iff by blast
    qed
  qed
qed

lemma long_runs_empty: "e \<le> f \<Longrightarrow> long_runs R y f e = {}"
  by (auto simp: long_runs_def)

text \<open>What Rule 2 does to the state at one point.\<close>

lemma rule2_point_effect:
  assumes "0 < j"
  shows "consecIncPoints (rule2_point p y j st) = (if y > p then consecIncPoints st @ [j] else [j])"
    and "consecDecPoints (rule2_point p y j st) = (if y < p then consecDecPoints st @ [j] else [j])"
    and "set (coloured (rule2_point p y j st)) =
           set (coloured st)
           \<union> (if \<not> y > p \<and> 5 < length (consecIncPoints st) then set (consecIncPoints st) else {})
           \<union> (if \<not> y < p \<and> 5 < length (consecDecPoints st) then set (consecDecPoints st) else {})"
  using assms by (auto simp: rule2_point_def Let_def)

lemma rule2_point_effect_0:
  "consecIncPoints (rule2_point p y 0 st) = consecIncPoints st @ [0]"
  "consecDecPoints (rule2_point p y 0 st) = consecDecPoints st @ [0]"
  "coloured (rule2_point p y 0 st) = coloured st"
  by (simp_all add: rule2_point_def)


lemma trend_state_step:
  assumes "trend_state y f j st0 st" and "0 < j"
  shows "trend_state y f (Suc j) st0 (rule2_point (y (j - 1)) (y j) j st)"
proof -
  let ?st' = "rule2_point (y (j - 1)) (y j) j st"
  let ?I = "\<lambda>p v::real. p < v" and ?D = "\<lambda>p v::real. p > v"
  from assms(1) obtain a d where
    inc: "run_inv ?I y f j (consecIncPoints st) a" and
    dec: "run_inv ?D y f j (consecDecPoints st) d" and
    col: "set (coloured st) = set (coloured st0) \<union> long_runs ?I y f a \<union> long_runs ?D y f d" and
    rest: "meanPoints st = meanPoints st0" "consecutiveUPoints st = consecutiveUPoints st0"
      "consecutiveLPoints st = consecutiveLPoints st0"
    unfolding trend_state_def by blast
  from inc have fj: "f \<le> j" by (simp add: run_inv_def)
  from inc have incl: "consecIncPoints st = [a ..< j]" by (simp add: run_inv_def)
  from dec have decl: "consecDecPoints st = [d ..< j]" by (simp add: run_inv_def)
  define a' where "a' = (if y (j - 1) < y j then a else j)"
  define d' where "d' = (if y (j - 1) > y j then d else j)"
  have inc': "run_inv ?I y f (Suc j) (consecIncPoints ?st') a'"
  proof (cases "y (j - 1) < y j")
    case True
    then show ?thesis
      using run_inv_keep [OF inc] rule2_point_effect(1) [OF assms(2)] by (simp add: a'_def)
  next
    case False
    then show ?thesis
      using run_inv_break [of f j ?I y] fj rule2_point_effect(1) [OF assms(2)] by (simp add: a'_def)
  qed
  have dec': "run_inv ?D y f (Suc j) (consecDecPoints ?st') d'"
  proof (cases "y (j - 1) > y j")
    case True
    then show ?thesis
      using run_inv_keep [OF dec] rule2_point_effect(2) [OF assms(2)] by (simp add: d'_def)
  next
    case False
    then show ?thesis
      using run_inv_break [of f j ?D y] fj rule2_point_effect(2) [OF assms(2)] by (simp add: d'_def)
  qed
  have lra: "long_runs ?I y f a' = long_runs ?I y f a
      \<union> (if \<not> y (j - 1) < y j \<and> 5 < length (consecIncPoints st) then set (consecIncPoints st) else {})"
    using long_runs_extend [OF inc] by (simp add: a'_def incl)
  have lrd: "long_runs ?D y f d' = long_runs ?D y f d
      \<union> (if \<not> y (j - 1) > y j \<and> 5 < length (consecDecPoints st) then set (consecDecPoints st) else {})"
    using long_runs_extend [OF dec] by (simp add: d'_def decl)
  have "set (coloured ?st') = set (coloured st0) \<union> long_runs ?I y f a' \<union> long_runs ?D y f d'"
    unfolding rule2_point_effect(3) [OF assms(2)] col lra lrd by blast
  with inc' dec' rest show ?thesis
    unfolding trend_state_def by auto
qed


lemma trend_state_first:
  assumes "consecIncPoints st0 = []" and "consecDecPoints st0 = []"
  shows "trend_state y f (Suc f) st0 (rule2_point (y (f - 1)) (y f) f st0)"
proof -
  let ?st' = "rule2_point (y (f - 1)) (y f) f st0"
  have "consecIncPoints ?st' = [f]" "consecDecPoints ?st' = [f]"
    "set (coloured ?st') = set (coloured st0)"
    using assms rule2_point_effect [of f "y (f - 1)" "y f" st0]
      rule2_point_effect_0 [of "y (f - 1)" "y f" st0]
    by (cases "f = 0"; simp)+
  moreover have "long_runs R y f f = {}" for R
    by (simp add: long_runs_empty)
  ultimately show ?thesis
    unfolding trend_state_def using run_inv_first [of _ y f] by force
qed

lemma rule_points_append:
  "rule_points vm s (js @ [j]) st =
     (case rule_points vm s js st of Inl e \<Rightarrow> Inl e | Inr st1 \<Rightarrow> rule_point vm s j st1)"
  by (induction js arbitrary: st) (auto split: sum.splits)

lemma rule_point_only_rule2:
  assumes "\<not> runRule1 vm" and "runRule2 vm" and "\<not> runRule3 vm" and "j < length (dataPoints vm)"
  shows "rule_point vm s j st = Inr (rule2_point (value_at vm (j - 1)) (value_at vm j) j st)"
  using assms by (simp add: rule_point_Inr)

lemma rule_points_only_rule2:
  assumes "\<not> runRule1 vm" and "runRule2 vm" and "\<not> runRule3 vm"
    and "f + n < length (dataPoints vm)"
    and "consecIncPoints st0 = []" and "consecDecPoints st0 = []"
  shows "\<exists>st. rule_points vm s [f ..< Suc (f + n)] st0 = Inr st
            \<and> trend_state (value_at vm) f (Suc (f + n)) st0 st"
  using assms(4)
proof (induction n)
  case 0
  then show ?case
    using rule_point_only_rule2 [OF assms(1-3), of f s st0] trend_state_first [OF assms(5,6)]
    by simp
next
  case (Suc n)
  then obtain st where 1: "rule_points vm s [f ..< Suc (f + n)] st0 = Inr st"
    and 2: "trend_state (value_at vm) f (Suc (f + n)) st0 st"
    by auto
  have 3: "[f ..< Suc (f + Suc n)] = [f ..< Suc (f + n)] @ [Suc (f + n)]"
    by simp
  have "rule_points vm s [f ..< Suc (f + Suc n)] st0 =
          Inr (rule2_point (value_at vm (Suc (f + n) - 1)) (value_at vm (Suc (f + n))) (Suc (f + n)) st)"
    unfolding 3 rule_points_append 1
    using rule_point_only_rule2 [OF assms(1-3), of "Suc (f + n)"] Suc.prems by simp
  moreover have "trend_state (value_at vm) f (Suc (Suc (f + n))) st0
          (rule2_point (value_at vm (Suc (f + n) - 1)) (value_at vm (Suc (f + n))) (Suc (f + n)) st)"
    using trend_state_step [OF 2] by simp
  ultimately show ?case by simp
qed

lemma stage_end_trend:
  assumes "trend_state y f e st0 st" and "meanPoints st0 = []"
    and "consecutiveUPoints st0 = []" and "consecutiveLPoints st0 = []"
  shows "idle (stage_end st) \<and> meanPoints (stage_end st) = []
         \<and> set (coloured (stage_end st)) =
             set (coloured st0) \<union> long_runs (\<lambda>p v. p < v) y f e \<union> long_runs (\<lambda>p v. p > v) y f e"
proof -
  let ?I = "\<lambda>p v::real. p < v" and ?D = "\<lambda>p v::real. p > v"
  from assms obtain a d where
    inc: "run_inv ?I y f e (consecIncPoints st) a" and
    dec: "run_inv ?D y f e (consecDecPoints st) d" and
    col: "set (coloured st) = set (coloured st0) \<union> long_runs ?I y f a \<union> long_runs ?D y f d" and
    rest: "meanPoints st = []" "consecutiveUPoints st = []" "consecutiveLPoints st = []"
    unfolding trend_state_def by auto
  from inc have incl: "consecIncPoints st = [a ..< e]" by (simp add: run_inv_def)
  from dec have decl: "consecDecPoints st = [d ..< e]" by (simp add: run_inv_def)
  have "set (coloured (stage_end st)) = set (coloured st)
          \<union> (if 5 < e - a then {a ..< e} else {}) \<union> (if 5 < e - d then {d ..< e} else {})"
    using rest incl decl by (auto simp: stage_end_def Let_def)
  then have "set (coloured (stage_end st)) =
             set (coloured st0) \<union> long_runs ?I y f e \<union> long_runs ?D y f e"
    unfolding col long_runs_extend [OF inc] long_runs_extend [OF dec] by blast
  moreover have "idle (stage_end st)"
    using rest by (simp add: stage_end_def idle_def Let_def)
  ultimately show ?thesis by simp
qed

lemma stage_only_rule2:
  assumes "\<not> runRule1 vm" and "runRule2 vm" and "\<not> runRule3 vm"
    and "lastId s < length (dataPoints vm)" and "idle st0" and "meanPoints st0 = []"
  shows "\<exists>st. rule_points vm s (stage_indices s) st0 = Inr st
            \<and> idle (stage_end st) \<and> meanPoints (stage_end st) = []
            \<and> set (coloured (stage_end st)) = set (coloured st0) \<union> {j. in_trend vm s j}"
proof (cases "firstId s \<le> lastId s")
  case True
  then obtain n where n: "lastId s = firstId s + n"
    using le_Suc_ex by blast
  from assms(5) have e: "consecIncPoints st0 = []" "consecDecPoints st0 = []"
    "consecutiveUPoints st0 = []" "consecutiveLPoints st0 = []"
    by (simp_all add: idle_def)
  from rule_points_only_rule2 [OF assms(1-3) _ e(1,2), of "firstId s" n s] assms(4) n
  obtain st where 1: "rule_points vm s (stage_indices s) st0 = Inr st"
    and 2: "trend_state (value_at vm) (firstId s) (Suc (lastId s)) st0 st"
    by (auto simp: stage_indices_def)
  from stage_end_trend [OF 2 assms(6) e(3,4)] 1 show ?thesis
    by (auto simp: in_trend_def)
next
  case False
  then have "stage_indices s = []" and "{j. in_trend vm s j} = {}"
    by (auto simp: stage_indices_def in_trend_def long_runs_empty)
  moreover have "idle (stage_end st0) \<and> meanPoints (stage_end st0) = []
      \<and> set (coloured (stage_end st0)) = set (coloured st0)"
    using assms(5,6) by (simp add: stage_end_def idle_def Let_def)
  ultimately show ?thesis by simp
qed

lemma rule_stages_only_rule2:
  assumes "\<not> runRule1 vm" and "runRule2 vm" and "\<not> runRule3 vm"
    and "\<forall>s \<in> set ss. lastId s < length (dataPoints vm)" and "idle st0" and "meanPoints st0 = []"
  shows "\<exists>st. rule_stages vm ss st0 = Inr st
            \<and> set (coloured st) = set (coloured st0) \<union> {j. \<exists>s \<in> set ss. in_trend vm s j}"
  using assms(4-6)
proof (induction ss arbitrary: st0)
  case Nil
  then show ?case by simp
next
  case (Cons s ss)
  from Cons.prems(1) have "lastId s < length (dataPoints vm)" by simp
  from stage_only_rule2 [OF assms(1-3) this Cons.prems(2,3)] obtain st1 where
    1: "rule_points vm s (stage_indices s) st0 = Inr st1" and
    2: "idle (stage_end st1)" "meanPoints (stage_end st1) = []" and
    3: "set (coloured (stage_end st1)) = set (coloured st0) \<union> {j. in_trend vm s j}"
    by blast
  from Cons.prems(1) have "\<forall>s \<in> set ss. lastId s < length (dataPoints vm)" by simp
  from Cons.IH [OF this 2] obtain st where
    4: "rule_stages vm ss (stage_end st1) = Inr st" and
    5: "set (coloured st) = set (coloured (stage_end st1)) \<union> {j. \<exists>s \<in> set ss. in_trend vm s j}"
    by blast
  from 1 4 have "rule_stages vm (s # ss) st0 = Inr st" by simp
  moreover from 3 5 have "set (coloured st) = set (coloured st0) \<union> {j. \<exists>t \<in> set (s # ss). in_trend vm t j}"
    by auto
  ultimately show ?case by blast
qed


text \<open>Other rules do not disturb Rule 2.\<close>

lemma rule2_point_covers:
  assumes "covers st st2"
  shows "covers (rule2_point p y j st) (rule2_point p y j st2)"
proof (cases "j = 0")
  case True
  with assms show ?thesis
    by (simp add: covers_def rule2_point_effect_0)
next
  case False
  then have j: "0 < j" by simp
  from assms show ?thesis
    unfolding covers_def rule2_point_effect [OF j] by auto
qed

lemma rule_point_covers:
  assumes "covers st st2" and "runRule2 vm"
    and "rule_point vm s j st = Inr st'"
  shows "\<exists>st2'. rule_point (vm\<lparr>runRule1 := False, runRule3 := False\<rparr>) s j st2 = Inr st2'
           \<and> covers st' st2'"
proof -
  from assms(2,3) have j: "j < length (dataPoints vm)"
    by (auto simp: rule_point_def at_index_nat split: if_splits)
  let ?p = "value_at vm (j - 1)" and ?y = "value_at vm j"
  define st1 where "st1 = (if runRule1 vm then rule1_point s ?y j st else st)"
  have 1: "covers st1 st2"
    using assms(1) by (simp add: st1_def covers_def)
  have 2: "covers (rule2_point ?p ?y j st1) (rule2_point ?p ?y j st2)"
    using 1 by (rule rule2_point_covers)
  have 3: "st' = (if runRule3 vm then rule3_point s ?y j (rule2_point ?p ?y j st1)
                  else rule2_point ?p ?y j st1)"
    using assms(2,3) unfolding rule_point_Inr [OF j] by (auto simp: Let_def st1_def)
  have "covers st' (rule2_point ?p ?y j st2)"
    using 2 rule3_point_coloured [of "rule2_point ?p ?y j st1" s ?y j]
    unfolding 3 covers_def by auto
  moreover have "rule_point (vm\<lparr>runRule1 := False, runRule3 := False\<rparr>) s j st2
      = Inr (rule2_point ?p ?y j st2)"
    using assms(2) j by (simp add: rule_point_def at_index_nat value_at_def)
  ultimately show ?thesis by blast
qed

lemma rule_points_covers:
  assumes "covers st st2" and "runRule2 vm"
    and "rule_points vm s js st = Inr st'"
  shows "\<exists>st2'. rule_points (vm\<lparr>runRule1 := False, runRule3 := False\<rparr>) s js st2 = Inr st2'
           \<and> covers st' st2'"
  using assms(1,3)
proof (induction js arbitrary: st st2)
  case Nil
  then show ?case by simp
next
  case (Cons j js)
  then obtain st1 where 1: "rule_point vm s j st = Inr st1" and 2: "rule_points vm s js st1 = Inr st'"
    by (auto split: sum.splits)
  from rule_point_covers [OF Cons.prems(1) assms(2) 1] obtain st21 where
    3: "rule_point (vm\<lparr>runRule1 := False, runRule3 := False\<rparr>) s j st2 = Inr st21"
    and 4: "covers st1 st21" by blast
  from Cons.IH [OF 4 2] 3 show ?case by simp
qed

lemma stage_end_covers:
  assumes "covers st st2"
  shows "covers (stage_end st) (stage_end st2) \<or> \<not> (meanPoints st2 = [] \<and> consecutiveUPoints st2 = []
           \<and> consecutiveLPoints st2 = [])"
  using assms by (auto simp: covers_def stage_end_def Let_def)

lemma rule_points_keeps_others:
  assumes "rule_points (vm\<lparr>runRule1 := False, runRule3 := False\<rparr>) s js st = Inr st'"
  shows "meanPoints st' = meanPoints st \<and> consecutiveUPoints st' = consecutiveUPoints st
         \<and> consecutiveLPoints st' = consecutiveLPoints st"
  using assms
proof (induction js arbitrary: st)
  case Nil
  then show ?case by simp
next
  case (Cons j js)
  then obtain st1 where 1: "rule_point (vm\<lparr>runRule1 := False, runRule3 := False\<rparr>) s j st = Inr st1"
    and 2: "rule_points (vm\<lparr>runRule1 := False, runRule3 := False\<rparr>) s js st1 = Inr st'"
    by (auto split: sum.splits)
  from 1 have "meanPoints st1 = meanPoints st \<and> consecutiveUPoints st1 = consecutiveUPoints st
         \<and> consecutiveLPoints st1 = consecutiveLPoints st"
    by (auto simp: rule_point_def at_index_nat Let_def split: if_splits)
  with Cons.IH [OF 2] show ?case by simp
qed

lemma stage_end_others [simp]:
  "consecutiveUPoints (stage_end st) = []" "consecutiveLPoints (stage_end st) = []"
  by (simp_all add: stage_end_def Let_def)

lemma rule_stages_covers:
  assumes "runRule2 vm" and "rule_stages vm ss st = Inr st'" and "covers st st2"
    and "meanPoints st2 = []" and "consecutiveUPoints st2 = []" and "consecutiveLPoints st2 = []"
  shows "\<exists>st2'. rule_stages (vm\<lparr>runRule1 := False, runRule3 := False\<rparr>) ss st2 = Inr st2'
           \<and> covers st' st2'"
  using assms(2-6)
proof (induction ss arbitrary: st st2)
  case Nil
  then show ?case by simp
next
  case (Cons s ss)
  let ?vm2 = "vm\<lparr>runRule1 := False, runRule3 := False\<rparr>"
  from Cons.prems(1) obtain st1 where 1: "rule_points vm s (stage_indices s) st = Inr st1"
    and 2: "rule_stages vm ss (stage_end st1) = Inr st'"
    by (auto split: sum.splits)
  from rule_points_covers [OF Cons.prems(2) assms(1) 1] obtain st21 where
    3: "rule_points ?vm2 s (stage_indices s) st2 = Inr st21" and 4: "covers st1 st21"
    by blast
  from rule_points_keeps_others [OF 3] Cons.prems(3-5)
  have 5: "meanPoints st21 = []" "consecutiveUPoints st21 = []" "consecutiveLPoints st21 = []"
    by simp_all
  with stage_end_covers [OF 4] have 6: "covers (stage_end st1) (stage_end st21)" by simp
  from Cons.IH [OF 2 6] obtain st2' where
    "rule_stages ?vm2 ss (stage_end st21) = Inr st2'" and "covers st' st2'"
    by auto
  with 3 show ?case by simp
qed

lemma value_at_rules [simp]: "value_at (vm\<lparr>runRule1 := a, runRule3 := b\<rparr>) = value_at vm"
  by (rule ext) (simp add: value_at_def)

lemma in_trend_rules [simp]:
  "in_trend (vm\<lparr>runRule1 := a, runRule3 := b\<rparr>) s j = in_trend vm s j"
  by (simp add: in_trend_def)

lemmas eval_update = update_def runs_engine_def series_def labelled_def GetStages_def
  GetStages_gen_def close_stage_def set_mean_def CalcStats_def calc_stage_def LookUpd2_def
  at_index_def d2Array_def mr_offset_def number_div_def ApplyRules_def rule_point_def
  rule1_point_def rule2_point_def rule3_point_def out_of_limits_def DrawRulePoints_def
  stage_end_def stage_indices_def mean_segment_def limit_segment_def divider_of_def
  segment_start_def Stage_MR.defs Let_def upt_rec numeral_eq_Suc

subsection \<open>Rule 1\<close>

text \<open>
  C8: when the stages lie inside the data, \<open>ApplyRules\<close> with Rule 1 enabled colours
  every point that is outside the limits of a stage it belongs to, and with Rule 1 alone
  it colours no other point; there is no run to wait for. For limits that are real
  numbers, outside means strictly above \<open>uCL\<close> or strictly below \<open>lCL\<close>: a value equal to
  \<open>uCL\<close> or to \<open>lCL\<close> is inside (for \<open>lCL \<le> uCL\<close>) and one unit beyond either is outside.
\<close>

theorem rule1_flags:
  assumes "runRule1 vm" and "\<forall>s \<in> set stages. lastId s < length (dataPoints vm)"
  shows "(\<exists>points. ApplyRules vm stages = Inr points
            \<and> {j. \<exists>s \<in> set stages. in_stage s j \<and> out_of_limits s (value_at vm j)} \<subseteq> set points
            \<and> (\<not> runRule2 vm \<and> \<not> runRule3 vm \<longrightarrow>
                 set points = {j. \<exists>s \<in> set stages. in_stage s j \<and> out_of_limits s (value_at vm j)}))
         \<and> (\<forall>s u l y. uCL s = Num u \<and> lCL s = Num l \<longrightarrow>
               (out_of_limits s y \<longleftrightarrow> y > u \<or> y < l))
         \<and> (\<forall>s u l. uCL s = Num u \<and> lCL s = Num l \<and> l \<le> u \<longrightarrow>
               \<not> out_of_limits s u \<and> \<not> out_of_limits s l
               \<and> out_of_limits s (u + 1) \<and> out_of_limits s (l - 1))"
proof -
  let ?init = "\<lparr>meanPoints = [], consecIncPoints = [], consecDecPoints = [],
              consecutiveUPoints = [], consecutiveLPoints = [], coloured = []\<rparr>"
  let ?R = "{j. \<exists>s \<in> set stages. in_stage s j \<and> out_of_limits s (value_at vm j)}"
  obtain st' where r: "rule_stages vm stages ?init = Inr st'"
    using rule_stages_total [OF assms(2)] by blast
  have sub: "?R \<subseteq> set (coloured st')"
    using rule_stages_rule1 [OF r assms(1)] by blast
  have "set (coloured st') = ?R" if "\<not> runRule2 vm \<and> \<not> runRule3 vm"
  proof -
    have "idle ?init" and "meanPoints ?init = []"
      by (simp_all add: idle_def)
    from rule_stages_only_rule1 [OF assms(1) _ _ r this] that show ?thesis
      by auto
  qed
  with r sub have "\<exists>points. ApplyRules vm stages = Inr points \<and> ?R \<subseteq> set points
            \<and> (\<not> runRule2 vm \<and> \<not> runRule3 vm \<longrightarrow> set points = ?R)"
    by (simp add: ApplyRules_def)
  moreover have "\<forall>s u l y. uCL s = Num u \<and> lCL s = Num l \<longrightarrow>
               (out_of_limits s y \<longleftrightarrow> y > u \<or> y < l)"
    by (simp add: out_of_limits_def)
  moreover have "\<forall>s u l. uCL s = Num u \<and> lCL s = Num l \<and> l \<le> u \<longrightarrow>
               \<not> out_of_limits s u \<and> \<not> out_of_limits s l
               \<and> out_of_limits s (u + 1) \<and> out_of_limits s (l - 1)"
    by (simp add: out_of_limits_def)
  ultimately show ?thesis by blast
qed

text \<open>
  An instance: one stage with limits 0 and 10 over the values 10, 11, 0, -1. The points
  of value 11 and -1 are coloured, those of value 10 and 0 are not.
\<close>

theorem rule1_flags_witness:
  "ApplyRules
     \<lparr>dataPoints = [\<lparr>xValue = 1, yValue = 10\<rparr>, \<lparr>xValue = 2, yValue = 11\<rparr>,
                    \<lparr>xValue = 3, yValue = 0\<rparr>, \<lparr>xValue = 4, yValue = - 1\<rparr>],
      runRule1 = True, runRule2 = False, runRule3 = False\<rparr>
     [\<lparr>lCL = Num 0, uCL = Num 10, mean = 5, startX = 1, endX = 4, sumY = 20, count = 4,
       stage = [], stageDividerX = 4, firstId = 0, lastId = 3\<rparr>] = Inr [1, 3]
   \<and> set [1, 3 :: nat] =
       {j. \<exists>s \<in> set [\<lparr>lCL = Num 0, uCL = Num 10, mean = 5, startX = 1, endX = 4, sumY = 20,
                        count = 4, stage = [], stageDividerX = 4, firstId = 0, lastId = 3\<rparr>].
             in_stage s j
             \<and> out_of_limits s
                 (value_at \<lparr>dataPoints = [\<lparr>xValue = 1, yValue = 10\<rparr>, \<lparr>xValue = 2, yValue = 11\<rparr>,
                                          \<lparr>xValue = 3, yValue = 0\<rparr>, \<lparr>xValue = 4, yValue = - 1\<rparr>],
                            runRule1 = True, runRule2 = False, runRule3 = False\<rparr> j)}"
proof -
  let ?vm = "\<lparr>dataPoints = [\<lparr>xValue = 1, yValue = 10\<rparr>, \<lparr>xValue = 2, yValue = 11\<rparr>,
                    \<lparr>xValue = 3, yValue = 0\<rparr>, \<lparr>xValue = 4, yValue = - 1\<rparr>],
      runRule1 = True, runRule2 = False, runRule3 = False\<rparr>
      :: ChartDataPoint ControlChartViewModel"
  let ?ss = "[\<lparr>lCL = Num 0, uCL = Num 10, mean = 5, startX = 1, endX = 4, sumY = 20, count = 4,
       stage = [], stageDividerX = 4, firstId = 0, lastId = 3\<rparr>] :: Stage list"
  have e: "ApplyRules ?vm ?ss = Inr [1, 3]"
    by (simp add: eval_update)
  let ?R = "{j. \<exists>s \<in> set ?ss. in_stage s j \<and> out_of_limits s (value_at ?vm j)}"
  have "runRule1 ?vm" and "\<forall>s \<in> set ?ss. lastId s < length (dataPoints ?vm)"
    by simp_all
  from rule1_flags [OF this, THEN conjunct1] obtain points where
    p1: "ApplyRules ?vm ?ss = Inr points" and
    p2: "\<not> runRule2 ?vm \<and> \<not> runRule3 ?vm \<longrightarrow> set points = ?R"
    by blast
  have "\<not> runRule2 ?vm \<and> \<not> runRule3 ?vm"
    by simp
  with p2 have p3: "set points = ?R"
    by blast
  from p1 e have "points = [1, 3]"
    by simp
  with p3 have "set [1, 3] = ?R"
    by blast
  with e show ?thesis
    by (rule conjI)
qed

subsection \<open>Rule 2\<close>

text \<open>
  C7: when the stages lie inside the data, \<open>ApplyRules\<close> with Rule 2 enabled colours
  every point that lies, inside its stage, in a strictly increasing or in a strictly
  decreasing run of more than five points (a run ends where the strict comparison with
  the previous point fails, and at the end of the stage), and with Rule 2 alone it
  colours no other point. A single stage 1, 2, 3, 4, 5, 6 has all six points coloured,
  a single stage 1, 2, 3, 4, 5, 5 none.
\<close>

theorem rule2_flags:
  assumes "runRule2 vm" and "\<forall>s \<in> set stages. lastId s < length (dataPoints vm)"
  shows "(\<exists>points. ApplyRules vm stages = Inr points
           \<and> {j. \<exists>s \<in> set stages. in_trend vm s j} \<subseteq> set points
           \<and> (\<not> runRule1 vm \<and> \<not> runRule3 vm \<longrightarrow>
                set points = {j. \<exists>s \<in> set stages. in_trend vm s j}))
         \<and> (\<exists>r. update \<lparr>dataPoints = [], runRule1 = False, runRule2 = True, runRule3 = False,
                    standardDeviations = 3, movingRange = 2, vm_mRError = False\<rparr> False (series [1, 2, 3, 4, 5, 6]) = Inr (Some r)
               \<and> flagged r = [0, 1, 2, 3, 4, 5])
         \<and> (\<exists>r. update \<lparr>dataPoints = [], runRule1 = False, runRule2 = True, runRule3 = False,
                    standardDeviations = 3, movingRange = 2, vm_mRError = False\<rparr> False (series [1, 2, 3, 4, 5, 5]) = Inr (Some r)
               \<and> flagged r = [])"
proof -
  let ?init = "\<lparr>meanPoints = [], consecIncPoints = [], consecDecPoints = [],
              consecutiveUPoints = [], consecutiveLPoints = [], coloured = []\<rparr>"
  let ?vm2 = "vm\<lparr>runRule1 := False, runRule3 := False\<rparr>"
  obtain st' where r: "rule_stages vm stages ?init = Inr st'"
    using rule_stages_total [OF assms(2)] by blast
  have i: "idle ?init" "meanPoints ?init = []" "covers ?init ?init"
    by (simp_all add: idle_def covers_def)
  have "\<forall>s \<in> set stages. lastId s < length (dataPoints ?vm2)"
    using assms(2) by simp
  from rule_stages_only_rule2 [OF _ _ _ this i(1,2)] assms(1)
  obtain st2 where r2: "rule_stages ?vm2 stages ?init = Inr st2"
    and c2: "set (coloured st2) = {j. \<exists>s \<in> set stages. in_trend vm s j}"
    by auto
  from rule_stages_covers [OF assms(1) r i(3)] r2 have "covers st' st2"
    by simp
  with c2 have sub: "{j. \<exists>s \<in> set stages. in_trend vm s j} \<subseteq> set (coloured st')"
    by (simp add: covers_def)
  have "set (coloured st') = {j. \<exists>s \<in> set stages. in_trend vm s j}"
    if "\<not> runRule1 vm \<and> \<not> runRule3 vm"
  proof -
    from that have "?vm2 = vm" by simp
    with r r2 c2 show ?thesis by simp
  qed
  with r sub have "\<exists>points. ApplyRules vm stages = Inr points
           \<and> {j. \<exists>s \<in> set stages. in_trend vm s j} \<subseteq> set points
           \<and> (\<not> runRule1 vm \<and> \<not> runRule3 vm \<longrightarrow>
                set points = {j. \<exists>s \<in> set stages. in_trend vm s j})"
    by (simp add: ApplyRules_def)
  moreover have "\<exists>r. update \<lparr>dataPoints = [], runRule1 = False, runRule2 = True, runRule3 = False,
                    standardDeviations = 3, movingRange = 2, vm_mRError = False\<rparr> False (series [1, 2, 3, 4, 5, 6]) = Inr (Some r)
               \<and> flagged r = [0, 1, 2, 3, 4, 5]"
    by (simp add: eval_update)
  moreover have "\<exists>r. update \<lparr>dataPoints = [], runRule1 = False, runRule2 = True, runRule3 = False,
                    standardDeviations = 3, movingRange = 2, vm_mRError = False\<rparr> False (series [1, 2, 3, 4, 5, 5]) = Inr (Some r)
               \<and> flagged r = []"
    by (simp add: eval_update)
  ultimately show ?thesis by blast
qed

text \<open>
  An instance: one stage over seven increasing values followed by a drop. The first
  seven points are coloured; they are the points in a trend.
\<close>

theorem rule2_flags_witness:
  "ApplyRules
     \<lparr>dataPoints = [\<lparr>xValue = 1, yValue = 1\<rparr>, \<lparr>xValue = 2, yValue = 2\<rparr>,
                    \<lparr>xValue = 3, yValue = 3\<rparr>, \<lparr>xValue = 4, yValue = 4\<rparr>,
                    \<lparr>xValue = 5, yValue = 5\<rparr>, \<lparr>xValue = 6, yValue = 6\<rparr>,
                    \<lparr>xValue = 7, yValue = 7\<rparr>, \<lparr>xValue = 8, yValue = 0\<rparr>],
      runRule1 = False, runRule2 = True, runRule3 = False\<rparr>
     [\<lparr>lCL = Num 0, uCL = Num 0, mean = 7 / 2, startX = 1, endX = 8, sumY = 28, count = 8,
       stage = [], stageDividerX = 8, firstId = 0, lastId = 7\<rparr>] = Inr [0, 1, 2, 3, 4, 5, 6]
   \<and> set [0, 1, 2, 3, 4, 5, 6 :: nat] =
       {j. \<exists>s \<in> set [\<lparr>lCL = Num 0, uCL = Num 0, mean = 7 / 2, startX = 1, endX = 8, sumY = 28,
                        count = 8, stage = [], stageDividerX = 8, firstId = 0, lastId = 7\<rparr>].
             in_trend
               \<lparr>dataPoints = [\<lparr>xValue = 1, yValue = 1\<rparr>, \<lparr>xValue = 2, yValue = 2\<rparr>,
                              \<lparr>xValue = 3, yValue = 3\<rparr>, \<lparr>xValue = 4, yValue = 4\<rparr>,
                              \<lparr>xValue = 5, yValue = 5\<rparr>, \<lparr>xValue = 6, yValue = 6\<rparr>,
                              \<lparr>xValue = 7, yValue = 7\<rparr>, \<lparr>xValue = 8, yValue = 0\<rparr>],
                runRule1 = False, runRule2 = True, runRule3 = False\<rparr> s j}"
proof -
  let ?vm = "\<lparr>dataPoints = [\<lparr>xValue = 1, yValue = 1\<rparr>, \<lparr>xValue = 2, yValue = 2\<rparr>,
                    \<lparr>xValue = 3, yValue = 3\<rparr>, \<lparr>xValue = 4, yValue = 4\<rparr>,
                    \<lparr>xValue = 5, yValue = 5\<rparr>, \<lparr>xValue = 6, yValue = 6\<rparr>,
                    \<lparr>xValue = 7, yValue = 7\<rparr>, \<lparr>xValue = 8, yValue = 0\<rparr>],
      runRule1 = False, runRule2 = True, runRule3 = False\<rparr>
      :: ChartDataPoint ControlChartViewModel"
  let ?ss = "[\<lparr>lCL = Num 0, uCL = Num 0, mean = 7 / 2, startX = 1, endX = 8, sumY = 28, count = 8,
       stage = [], stageDividerX = 8, firstId = 0, lastId = 7\<rparr>] :: Stage list"
  have e: "ApplyRules ?vm ?ss = Inr [0, 1, 2, 3, 4, 5, 6]"
    by (simp add: eval_update)
  let ?R = "{j. \<exists>s \<in> set ?ss. in_trend ?vm s j}"
  have "runRule2 ?vm" and "\<forall>s \<in> set ?ss. lastId s < length (dataPoints ?vm)"
    by simp_all
  from rule2_flags [OF this, THEN conjunct1] obtain points where
    p1: "ApplyRules ?vm ?ss = Inr points" and
    p2: "\<not> runRule1 ?vm \<and> \<not> runRule3 ?vm \<longrightarrow> set points = ?R"
    by blast
  have "\<not> runRule1 ?vm \<and> \<not> runRule3 ?vm"
    by simp
  with p2 have p3: "set points = ?R"
    by blast
  from p1 e have "points = [0, 1, 2, 3, 4, 5, 6]"
    by simp
  with p3 have "set [0, 1, 2, 3, 4, 5, 6] = ?R"
    by blast
  with e show ?thesis
    by (rule conjI)
qed

subsection \<open>Rule 3\<close>

text \<open>
  C2, at an input where it fails: one stage with the values 1, 1, 1, 1, 0, 1, 1, 1, 1,
  1, -9. Its mean is 0, so the fifth point is equal to the mean; before it there are four
  points above the mean and after it five. A point equal to the mean takes neither
  branch of Rule 3 and the run above the mean goes on across it: the nine points above
  the mean are coloured, though no nine of them are consecutive. Nine consecutive points
  above the mean are coloured, eight are not.
\<close>

theorem rule3_mean_point_keeps_run:
  "(\<exists>r. update \<lparr>dataPoints = [], runRule1 = False, runRule2 = False, runRule3 = True,
                    standardDeviations = 3, movingRange = 2, vm_mRError = False\<rparr> False (series [1, 1, 1, 1, 0, 1, 1, 1, 1, 1, - 9]) = Inr (Some r)
        \<and> map mean (chartStages (chart r)) = [0] \<and> flagged r = [0, 1, 2, 3, 5, 6, 7, 8, 9])
   \<and> (\<exists>r. update \<lparr>dataPoints = [], runRule1 = False, runRule2 = False, runRule3 = True,
                    standardDeviations = 3, movingRange = 2, vm_mRError = False\<rparr> False (series [1, 2, 3, 4, 5, 6, 7, 8, 9, - 45]) = Inr (Some r)
        \<and> map mean (chartStages (chart r)) = [0] \<and> flagged r = [0, 1, 2, 3, 4, 5, 6, 7, 8])
   \<and> (\<exists>r. update \<lparr>dataPoints = [], runRule1 = False, runRule2 = False, runRule3 = True,
                    standardDeviations = 3, movingRange = 2, vm_mRError = False\<rparr> False (series [1, 2, 3, 4, 5, 6, 7, 8, - 36]) = Inr (Some r)
        \<and> map mean (chartStages (chart r)) = [0] \<and> flagged r = [])"
  by (simp add: eval_update)

section \<open>Properties of one refresh\<close>

lemma calc_stage_ids:
  assumes "2 \<le> movingRange vm" and "stage_ok vm s"
  shows "\<exists>s'. calc_stage vm s = Inr s'
     \<and> firstId s' = firstId s \<and> lastId s' = lastId s \<and> count s' = count s"
proof -
  from assms(2) have ok: "count s = Suc (lastId s) - firstId s" "firstId s \<le> lastId s"
    "lastId s < length (dataPoints vm)"
    by (simp_all add: stage_ok_def fresh_stage_def)
  show ?thesis
  proof (cases "movingRange vm > int (count s)")
    case True
    then show ?thesis by (simp add: calc_stage_short)
  next
    case False
    then have le: "movingRange vm \<le> int (count s)" by simp
    show ?thesis
      unfolding calc_stage_long [OF assms(1) le ok(2,1,3)] by simp
  qed
qed

lemma GetStages_ok:
  assumes "rows \<noteq> []" and "dataPoints vm = map fst rows"
  shows "\<exists>stages. GetStages hasStages rows = Inr stages \<and> stages \<noteq> []
           \<and> partitions 0 stages (length rows) \<and> (\<forall>s \<in> set stages. stage_ok vm s)"
proof -
  from GetStages_gen_partitions [OF assms(1), of "Stage_MR.fields False" hasStages]
  obtain stages where g: "GetStages hasStages rows = Inr stages"
    and p: "partitions 0 stages (length rows)"
    and f: "\<forall>s \<in> set stages. fresh_stage (Stage_MR.fields False) s"
    by (auto simp: GetStages_def)
  have "stage_ok vm s" if "s \<in> set stages" for s
    using partitions_bounds [OF p that] f that assms(2) by (simp add: stage_ok_def)
  moreover have "stages \<noteq> []"
    using p assms(1) by auto
  ultimately show ?thesis using g p by blast
qed

lemma ApplyRules_total:
  assumes "\<forall>s \<in> set stages. lastId s < length (dataPoints vm)"
  shows "\<exists>points. ApplyRules vm stages = Inr points"
proof -
  from rule_stages_total [OF assms] obtain st' where
    "rule_stages vm stages \<lparr>meanPoints = [], consecIncPoints = [], consecDecPoints = [],
       consecutiveUPoints = [], consecutiveLPoints = [], coloured = []\<rparr> = Inr st'"
    by blast
  then show ?thesis by (simp add: ApplyRules_def)
qed

text \<open>One refresh of the moving-range version, step by step.\<close>

lemma update_steps:
  assumes "rows \<noteq> []" and "2 \<le> movingRange vm0"
  defines "vm \<equiv> vm0\<lparr>dataPoints := map fst rows\<rparr>"
  shows "\<exists>stages r. GetStages hasStages rows = Inr stages
           \<and> partitions 0 stages (length rows) \<and> (\<forall>s \<in> set stages. stage_ok vm s)
           \<and> update vm0 hasStages rows = Inr (Some r)
           \<and> chartStages (chart r) = map (\<lambda>s. projr (calc_stage vm s)) stages
           \<and> chart_ok (\<lambda>s. \<not> mRError s) (chart r)
           \<and> viewModel r = vm\<lparr>vm_mRError := vm_mRError vm0
                                  \<or> (\<exists>s \<in> set stages. movingRange vm0 > int (count s))\<rparr>
           \<and> ApplyRules (viewModel r) (chartStages (chart r)) = Inr (flagged r)"
proof -
  have dp: "dataPoints vm = map fst rows" and mr: "movingRange vm = movingRange vm0"
    by (simp_all add: vm_def)
  from GetStages_ok [OF assms(1) dp] obtain stages where
    g: "GetStages hasStages rows = Inr stages" and
    p: "partitions 0 stages (length rows)" and
    ok: "\<forall>s \<in> set stages. stage_ok vm s"
    by blast
  let ?ch0 = "\<lparr>chartStages = [], meanLine = [], uclLines = [], lclLines = [], stageDividers = []\<rparr>
      :: Stage_MR Chart"
  have c0: "chart_ok (\<lambda>s. \<not> mRError s) ?ch0"
    by (simp add: chart_ok_def mean_lines_def limit_lines_def dividers_def)
  have p0: "None = prev_stage (chartStages ?ch0) (length (chartStages ?ch0))"
    by (simp add: prev_stage_def)
  have tot: "\<forall>s \<in> set stages. \<exists>s'. calc_stage vm s = Inr s'"
    using calc_stage_ids [of vm] ok assms(2) mr by metis
  from CalcStats_loop_ok [OF tot c0 p0, of "vm_mRError vm"] obtain ch where
    l: "CalcStats_loop vm None stages (vm_mRError vm, ?ch0) =
          Inr (vm_mRError vm \<or> (\<exists>s \<in> set stages. movingRange vm > int (count s)), ch)" and
    cok: "chart_ok (\<lambda>s. \<not> mRError s) ch" and
    cs: "chartStages ch = map (\<lambda>s. projr (calc_stage vm s)) stages"
    by auto
  let ?vm' = "vm\<lparr>vm_mRError := vm_mRError vm0 \<or> (\<exists>s \<in> set stages. movingRange vm0 > int (count s))\<rparr>"
  have calc: "CalcStats vm stages = Inr (?vm', ch)"
    using l by (simp add: CalcStats_def vm_def)
  have "\<forall>s \<in> set (chartStages ch). lastId s < length (dataPoints ?vm')"
  proof
    fix s' assume "s' \<in> set (chartStages ch)"
    then obtain s where s: "s \<in> set stages" "s' = projr (calc_stage vm s)"
      unfolding cs by auto
    from calc_stage_ids [OF _ ok [rule_format, OF s(1)]] assms(2) mr s(2)
    have "lastId s' = lastId s" by auto
    with ok s(1) show "lastId s' < length (dataPoints ?vm')"
      by (auto simp: stage_ok_def)
  qed
  from ApplyRules_total [OF this] obtain points where
    a: "ApplyRules ?vm' (chartStages ch) = Inr points"
    by blast
  have "update vm0 hasStages rows =
          Inr (Some \<lparr>viewModel = ?vm', chart = ch, flagged = points\<rparr>)"
    using assms(1) g calc a dp
    by (simp add: update_def runs_engine_def Let_def vm_def [symmetric])
  with g p ok cs cok a show ?thesis
    by (intro exI [of _ stages] exI [of _ "\<lparr>viewModel = ?vm', chart = ch, flagged = points\<rparr>"]) simp
qed


lemma ApplyRules_rule1:
  assumes "ApplyRules vm stages = Inr points" and "runRule1 vm"
    and "s \<in> set stages" and "in_stage s j" and "out_of_limits s (value_at vm j)"
  shows "j \<in> set points"
proof -
  from assms(1) obtain st' where
    "rule_stages vm stages \<lparr>meanPoints = [], consecIncPoints = [], consecDecPoints = [],
       consecutiveUPoints = [], consecutiveLPoints = [], coloured = []\<rparr> = Inr st'"
    and "points = coloured st'"
    by (auto simp: ApplyRules_def split: sum.splits)
  with rule_stages_rule1 [OF this(1) assms(2-5)] show ?thesis by simp
qed

subsection \<open>Stages with fewer points than the window\<close>

text \<open>
  C4: for rows that are not empty, a window from 2 to 50 and a warning flag that starts
  as false, one refresh returns a result in which a stage has the error flag exactly
  when it has fewer points than the window; the warning flag of the view model is set
  exactly when some stage has the error flag; a stage with the error flag keeps the
  limits 0 it was created with; every other stage has the limits
  \<open>mean \<plusminus> numsds * rBar / d2\<close>, with the average moving range of its own points and the
  \<open>d2\<close> of the window; there is a mean segment for every stage, and a UCL and an LCL
  segment for exactly the stages without the error flag.
\<close>

theorem insufficient_data_stages:
  assumes "rows \<noteq> []" and "2 \<le> movingRange vm" and "movingRange vm \<le> 50"
    and "\<not> vm_mRError vm"
  shows "\<exists>r d2. update vm hasStages rows = Inr (Some r) \<and> LookUpd2 (movingRange vm) = Some d2
     \<and> meanLine (chart r) = mean_lines (chartStages (chart r))
     \<and> uclLines (chart r) = limit_lines uCL (\<lambda>s. \<not> mRError s) (chartStages (chart r))
     \<and> lclLines (chart r) = limit_lines lCL (\<lambda>s. \<not> mRError s) (chartStages (chart r))
     \<and> (vm_mRError (viewModel r) \<longleftrightarrow> (\<exists>s \<in> set (chartStages (chart r)). mRError s))
     \<and> (\<forall>s \<in> set (chartStages (chart r)).
          (mRError s \<longleftrightarrow> int (count s) < movingRange vm)
          \<and> (mRError s \<longrightarrow> uCL s = Num 0 \<and> lCL s = Num 0)
          \<and> (\<not> mRError s \<longrightarrow>
                uCL s = Num (mean s + standardDeviations vm
                          * rBar_of (value_at (viewModel r)) (nat (movingRange vm)) (firstId s) (lastId s)
                          / d2)
              \<and> lCL s = Num (mean s - standardDeviations vm
                          * rBar_of (value_at (viewModel r)) (nat (movingRange vm)) (firstId s) (lastId s)
                          / d2)))"
proof -
  let ?vm = "vm\<lparr>dataPoints := map fst rows\<rparr>"
  let ?d2 = "d2Array ! nat (movingRange vm - 1)"
  from update_steps [OF assms(1,2), of hasStages] obtain stages r where
    ok: "\<forall>s \<in> set stages. stage_ok ?vm s" and
    u: "update vm hasStages rows = Inr (Some r)" and
    cs: "chartStages (chart r) = map (\<lambda>s. projr (calc_stage ?vm s)) stages" and
    cok: "chart_ok (\<lambda>s. \<not> mRError s) (chart r)" and
    v: "viewModel r = ?vm\<lparr>vm_mRError := vm_mRError vm
                                  \<or> (\<exists>s \<in> set stages. movingRange vm > int (count s))\<rparr>"
    by blast
  have va: "value_at (viewModel r) = value_at ?vm"
    unfolding v by (rule ext) (simp add: value_at_def)
  have d2: "LookUpd2 (movingRange vm) = Some ?d2"
    using LookUpd2_in_table [of "movingRange vm"] assms(2,3) by simp
  have each: "(mRError s' \<longleftrightarrow> int (count s') < movingRange vm)
          \<and> (mRError s' \<longrightarrow> uCL s' = Num 0 \<and> lCL s' = Num 0)
          \<and> (\<not> mRError s' \<longrightarrow>
                uCL s' = Num (mean s' + standardDeviations vm
                          * rBar_of (value_at ?vm) (nat (movingRange vm)) (firstId s') (lastId s')
                          / ?d2)
              \<and> lCL s' = Num (mean s' - standardDeviations vm
                          * rBar_of (value_at ?vm) (nat (movingRange vm)) (firstId s') (lastId s')
                          / ?d2))
          \<and> (\<exists>s \<in> set stages. count s = count s')"
    if "s' \<in> set (chartStages (chart r))" for s'
  proof -
    from that obtain s where s: "s \<in> set stages" "s' = projr (calc_stage ?vm s)"
      unfolding cs by auto
    have mrs: "movingRange ?vm = movingRange vm" "standardDeviations ?vm = standardDeviations vm"
      by simp_all
    have "2 \<le> movingRange ?vm" "movingRange ?vm \<le> 50" "stage_ok ?vm s"
      using assms(2,3) ok s(1) by simp_all
    from calc_stage_ok [OF this] obtain t where
      t: "calc_stage ?vm s = Inr t" and
      ids: "firstId t = firstId s" "lastId t = lastId s" "count t = count s" "mean t = mean s" and
      e: "mRError t \<longleftrightarrow> int (count s) < movingRange ?vm" and
      z: "mRError t \<longrightarrow> uCL t = Num 0 \<and> lCL t = Num 0" and
      n: "\<not> mRError t \<longrightarrow>
           uCL t = Num (mean s + standardDeviations ?vm
                      * rBar_of (value_at ?vm) (nat (movingRange ?vm)) (firstId s) (lastId s)
                      / d2Array ! nat (movingRange ?vm - 1))
         \<and> lCL t = Num (mean s - standardDeviations ?vm
                      * rBar_of (value_at ?vm) (nat (movingRange ?vm)) (firstId s) (lastId s)
                      / d2Array ! nat (movingRange ?vm - 1))"
      by blast
    from s(2) t have st: "s' = t" by simp
    have "\<exists>s \<in> set stages. count s = count s'"
      using s(1) ids(3) st by auto
    with e z n show ?thesis
      unfolding st ids mrs by blast
  qed
  have flag: "vm_mRError (viewModel r) \<longleftrightarrow> (\<exists>s \<in> set (chartStages (chart r)). mRError s)"
  proof
    assume "vm_mRError (viewModel r)"
    with v assms(4) obtain s where s: "s \<in> set stages" "movingRange vm > int (count s)"
      by auto
    let ?s' = "projr (calc_stage ?vm s)"
    have in': "?s' \<in> set (chartStages (chart r))"
      unfolding cs using s(1) by simp
    moreover from calc_stage_ids [of ?vm s] assms(2) ok s(1) have "count ?s' = count s"
      by auto
    ultimately have "mRError ?s'"
      using each [OF in'] s(2) by simp
    with in' show "\<exists>s \<in> set (chartStages (chart r)). mRError s" by blast
  next
    assume "\<exists>s \<in> set (chartStages (chart r)). mRError s"
    then obtain s' where s': "s' \<in> set (chartStages (chart r))" "mRError s'" by blast
    from each [OF s'(1)] s'(2) obtain s where "s \<in> set stages" "int (count s) < movingRange vm"
      by auto
    then show "vm_mRError (viewModel r)"
      unfolding v by auto
  qed
  from cok have lines: "meanLine (chart r) = mean_lines (chartStages (chart r))"
    "uclLines (chart r) = limit_lines uCL (\<lambda>s. \<not> mRError s) (chartStages (chart r))"
    "lclLines (chart r) = limit_lines lCL (\<lambda>s. \<not> mRError s) (chartStages (chart r))"
    by (simp_all add: chart_ok_def)
  have all: "\<forall>s \<in> set (chartStages (chart r)).
          (mRError s \<longleftrightarrow> int (count s) < movingRange vm)
          \<and> (mRError s \<longrightarrow> uCL s = Num 0 \<and> lCL s = Num 0)
          \<and> (\<not> mRError s \<longrightarrow>
                uCL s = Num (mean s + standardDeviations vm
                          * rBar_of (value_at ?vm) (nat (movingRange vm)) (firstId s) (lastId s)
                          / ?d2)
              \<and> lCL s = Num (mean s - standardDeviations vm
                          * rBar_of (value_at ?vm) (nat (movingRange vm)) (firstId s) (lastId s)
                          / ?d2))"
  proof
    fix s assume "s \<in> set (chartStages (chart r))"
    from each [OF this] show "(mRError s \<longleftrightarrow> int (count s) < movingRange vm)
          \<and> (mRError s \<longrightarrow> uCL s = Num 0 \<and> lCL s = Num 0)
          \<and> (\<not> mRError s \<longrightarrow>
                uCL s = Num (mean s + standardDeviations vm
                          * rBar_of (value_at ?vm) (nat (movingRange vm)) (firstId s) (lastId s)
                          / ?d2)
              \<and> lCL s = Num (mean s - standardDeviations vm
                          * rBar_of (value_at ?vm) (nat (movingRange vm)) (firstId s) (lastId s)
                          / ?d2))"
      by (elim conjE) (intro conjI)
  qed
  show ?thesis
    by (intro exI [of _ r] exI [of _ ?d2] conjI) (fact u d2 lines flag all [folded va])+
qed

text \<open>
  An instance: three stages of 3, 1 and 3 points with a window of 3. The stage in the
  middle has the error flag, there are three mean segments and two UCL segments.
\<close>

theorem insufficient_data_stages_witness:
  "\<exists>r. update \<lparr>dataPoints = [], runRule1 = True, runRule2 = False, runRule3 = False,
           standardDeviations = 3, movingRange = 3, vm_mRError = False\<rparr> True (labelled [(10, ''a''), (12, ''a''), (11, ''a''), (90, ''b''), (14, ''c''), (13, ''c''), (15, ''c'')]) = Inr (Some r)
     \<and> map mRError (chartStages (chart r)) = [False, True, False]
     \<and> vm_mRError (viewModel r)
     \<and> length (meanLine (chart r)) = 3 \<and> length (uclLines (chart r)) = 2
     \<and> meanLine (chart r) = mean_lines (chartStages (chart r))
     \<and> uclLines (chart r) = limit_lines uCL (\<lambda>s. \<not> mRError s) (chartStages (chart r))"
proof -
  let ?vm = "\<lparr>dataPoints = [], runRule1 = True, runRule2 = False, runRule3 = False,
           standardDeviations = 3, movingRange = 3, vm_mRError = False\<rparr> :: ChartDataPoint ViewModel_MR"
  let ?rows = "(labelled [(10, ''a''), (12, ''a''), (11, ''a''), (90, ''b''), (14, ''c''), (13, ''c''), (15, ''c'')])"
  have "\<exists>r. update ?vm True ?rows = Inr (Some r)
     \<and> map mRError (chartStages (chart r)) = [False, True, False]
     \<and> vm_mRError (viewModel r)
     \<and> length (meanLine (chart r)) = 3 \<and> length (uclLines (chart r)) = 2"
    by (simp add: eval_update)
  then obtain r1 where e: "update ?vm True ?rows = Inr (Some r1)"
    "map mRError (chartStages (chart r1)) = [False, True, False]"
    "vm_mRError (viewModel r1)"
    "length (meanLine (chart r1)) = 3" "length (uclLines (chart r1)) = 2"
    by (elim exE conjE)
  have "?rows \<noteq> []" and "2 \<le> movingRange ?vm" and "movingRange ?vm \<le> 50"
    and "\<not> vm_mRError ?vm"
    by (simp_all add: labelled_def)
  from insufficient_data_stages [OF this, of True] obtain r2 where
    t: "update ?vm True ?rows = Inr (Some r2)"
    "meanLine (chart r2) = mean_lines (chartStages (chart r2))"
    "uclLines (chart r2) = limit_lines uCL (\<lambda>s. \<not> mRError s) (chartStages (chart r2))"
    by (elim exE conjE)
  from e(1) t(1) have "r2 = r1" by simp
  with t have "meanLine (chart r1) = mean_lines (chartStages (chart r1))"
    "uclLines (chart r1) = limit_lines uCL (\<lambda>s. \<not> mRError s) (chartStages (chart r1))"
    by simp_all
  with e show ?thesis
    by (intro exI [of _ r1] conjI)
qed

text \<open>
  C5: for rows that are not empty and a window of at least 2, with Rule 1 enabled, one
  refresh returns a result in which every stage with fewer points than the window has
  the error flag and the limits 0, and every point of such a stage whose value is not 0
  is coloured.
\<close>

theorem insufficient_stage_rule1:
  assumes "rows \<noteq> []" and "2 \<le> movingRange vm" and "runRule1 vm"
  shows "\<exists>r. update vm hasStages rows = Inr (Some r)
     \<and> (\<forall>s \<in> set (chartStages (chart r)). int (count s) < movingRange vm \<longrightarrow>
           mRError s \<and> uCL s = Num 0 \<and> lCL s = Num 0
           \<and> (\<forall>j. in_stage s j \<and> value_at (viewModel r) j \<noteq> 0 \<longrightarrow> j \<in> set (flagged r)))"
proof -
  let ?vm = "vm\<lparr>dataPoints := map fst rows\<rparr>"
  from update_steps [OF assms(1,2), of hasStages] obtain stages r where
    ok: "\<forall>s \<in> set stages. stage_ok ?vm s" and
    u: "update vm hasStages rows = Inr (Some r)" and
    cs: "chartStages (chart r) = map (\<lambda>s. projr (calc_stage ?vm s)) stages" and
    v: "viewModel r = ?vm\<lparr>vm_mRError := vm_mRError vm
                                  \<or> (\<exists>s \<in> set stages. movingRange vm > int (count s))\<rparr>" and
    a: "ApplyRules (viewModel r) (chartStages (chart r)) = Inr (flagged r)"
    by blast
  have r1: "runRule1 (viewModel r)"
    unfolding v using assms(3) by simp
  have "mRError s' \<and> uCL s' = Num 0 \<and> lCL s' = Num 0
           \<and> (\<forall>j. in_stage s' j \<and> value_at (viewModel r) j \<noteq> 0 \<longrightarrow> j \<in> set (flagged r))"
    if "s' \<in> set (chartStages (chart r))" and short: "int (count s') < movingRange vm" for s'
  proof -
    from that(1) obtain s where s: "s \<in> set stages" "s' = projr (calc_stage ?vm s)"
      unfolding cs by auto
    from calc_stage_ids [of ?vm s] assms(2) ok s have "count s' = count s"
      by auto
    with short have "movingRange ?vm > int (count s)" by simp
    from calc_stage_short [OF this] s(2) have s': "s' = s\<lparr>mRError := True\<rparr>"
      by simp
    from ok s(1) have "uCL s = Num 0" "lCL s = Num 0"
      by (simp_all add: stage_ok_def fresh_stage_def)
    with s' have lim: "mRError s'" "uCL s' = Num 0" "lCL s' = Num 0" by simp_all
    have "j \<in> set (flagged r)" if "in_stage s' j" "value_at (viewModel r) j \<noteq> 0" for j
    proof -
      from lim that(2) have "out_of_limits s' (value_at (viewModel r) j)"
        by (auto simp: out_of_limits_def)
      from ApplyRules_rule1 [OF a r1 \<open>s' \<in> set (chartStages (chart r))\<close> that(1) this]
      show ?thesis .
    qed
    with lim show ?thesis by blast
  qed
  with u show ?thesis by blast
qed

text \<open>
  An instance: the same three stages. The only point of the stage in the middle has the
  value 90 and is the only point coloured.
\<close>

theorem insufficient_stage_rule1_witness:
  "\<exists>r. update \<lparr>dataPoints = [], runRule1 = True, runRule2 = False, runRule3 = False,
           standardDeviations = 3, movingRange = 3, vm_mRError = False\<rparr> True (labelled [(10, ''a''), (12, ''a''), (11, ''a''), (90, ''b''), (14, ''c''), (13, ''c''), (15, ''c'')]) = Inr (Some r)
     \<and> map count (chartStages (chart r)) = [3, 1, 3]
     \<and> map uCL (chartStages (chart r)) ! 1 = Num 0
     \<and> map lCL (chartStages (chart r)) ! 1 = Num 0
     \<and> map firstId (chartStages (chart r)) ! 1 = 3
     \<and> value_at (viewModel r) 3 = 90
     \<and> flagged r = [3]"
proof -
  let ?vm = "\<lparr>dataPoints = [], runRule1 = True, runRule2 = False, runRule3 = False,
           standardDeviations = 3, movingRange = 3, vm_mRError = False\<rparr> :: ChartDataPoint ViewModel_MR"
  let ?rows = "(labelled [(10, ''a''), (12, ''a''), (11, ''a''), (90, ''b''), (14, ''c''), (13, ''c''), (15, ''c'')])"
  have "\<exists>r. update ?vm True ?rows = Inr (Some r)
     \<and> map count (chartStages (chart r)) = [3, 1, 3]
     \<and> map uCL (chartStages (chart r)) ! 1 = Num 0
     \<and> map lCL (chartStages (chart r)) ! 1 = Num 0
     \<and> map firstId (chartStages (chart r)) ! 1 = 3
     \<and> value_at (viewModel r) 3 = 90
     \<and> flagged r = [3]"
    by (simp add: eval_update value_at_def)
  then obtain r1 where e: "update ?vm True ?rows = Inr (Some r1)"
    "map count (chartStages (chart r1)) = [3, 1, 3]"
    "map uCL (chartStages (chart r1)) ! 1 = Num 0"
    "map lCL (chartStages (chart r1)) ! 1 = Num 0"
    "map firstId (chartStages (chart r1)) ! 1 = 3"
    "value_at (viewModel r1) 3 = 90"
    "flagged r1 = [3]"
    by (elim exE conjE)
  have "?rows \<noteq> []" and "2 \<le> movingRange ?vm" and "runRule1 ?vm"
    by (simp_all add: labelled_def)
  from insufficient_stage_rule1 [OF this, of True] obtain r2 where
    t: "update ?vm True ?rows = Inr (Some r2)"
    by (elim exE conjE)
  from e(1) t have "r2 = r1" by simp
  with t have "update ?vm True ?rows = Inr (Some r1)" by simp
  with e(2-7) show ?thesis
    by (intro exI [of _ r1] conjI)
qed


lemmas eval_update_SD = update_SD_def runs_engine_def series_def labelled_def GetStages_SD_def
  GetStages_gen_def close_stage_def set_mean_def CalcStats_SD_def GetUnique_def sd_first_def
  sd_second_def sd_of_def inherited_keys_def at_index_def number_div_def ApplyRules_def
  rule_point_def rule1_point_def rule2_point_def rule3_point_def out_of_limits_def
  DrawRulePoints_def stage_end_def stage_indices_def mean_segment_def limit_segment_def
  divider_of_def segment_start_def Stage_SD.defs Let_def upt_rec numeral_eq_Suc

section \<open>Properties of a refresh of the standard-deviation version\<close>

subsection \<open>The stages of a refresh\<close>

lemma covers_indicesI:
  assumes "partitions 0 stages n"
  shows "covers_indices stages n"
  using assms partitions_unique [OF assms] by (simp add: covers_indices_def)

lemma covers_indices_cong:
  assumes "map firstId ss = map firstId ts" and "map lastId ss = map lastId ts"
    and "partitions 0 ts n"
  shows "covers_indices ss n"
  using partitions_cong [OF assms(1,2)] assms(3) by (intro covers_indicesI) simp

lemma update_covers:
  assumes "rows \<noteq> []" and "2 \<le> movingRange vm"
  shows "\<exists>r. update vm hasStages rows = Inr (Some r)
           \<and> covers_indices (chartStages (chart r)) (length rows)
           \<and> sum_list (map count (chartStages (chart r))) = length rows"
proof -
  let ?vm = "vm\<lparr>dataPoints := map fst rows\<rparr>"
  from update_steps [OF assms, of hasStages] obtain stages r where
    p: "partitions 0 stages (length rows)" and
    ok: "\<forall>s \<in> set stages. stage_ok ?vm s" and
    u: "update vm hasStages rows = Inr (Some r)" and
    cs: "chartStages (chart r) = map (\<lambda>s. projr (calc_stage ?vm s)) stages"
    by blast
  have same: "firstId (projr (calc_stage ?vm s)) = firstId s
      \<and> lastId (projr (calc_stage ?vm s)) = lastId s
      \<and> count (projr (calc_stage ?vm s)) = count s" if "s \<in> set stages" for s
    using calc_stage_ids [of ?vm s] ok that assms(2) by auto
  have ids: "map firstId (chartStages (chart r)) = map firstId stages"
    "map lastId (chartStages (chart r)) = map lastId stages"
    "map count (chartStages (chart r)) = map count stages"
    unfolding cs using same by simp_all
  have "\<forall>s \<in> set stages. count s = Suc (lastId s) - firstId s"
    using ok by (simp add: stage_ok_def fresh_stage_def)
  from partitions_counts [OF p this] have "sum_list (map count stages) = length rows"
    by simp
  with covers_indices_cong [OF ids(1,2) p] u ids(3) show ?thesis
    by auto
qed

lemma GetStages_SD_covers:
  assumes "rows \<noteq> []"
  shows "\<exists>stages. GetStages_SD hasStages rows = Inr stages
           \<and> partitions 0 stages (length rows)
           \<and> sum_list (map count stages) = length rows
           \<and> (\<forall>s \<in> set stages. lastId s < length rows)"
proof -
  from GetStages_gen_partitions [OF assms, of "Stage_SD.fields (Num 0)" hasStages]
  obtain stages where g: "GetStages_SD hasStages rows = Inr stages"
    and p: "partitions 0 stages (length rows)"
    and f: "\<forall>s \<in> set stages. fresh_stage (Stage_SD.fields (Num 0)) s"
    by (auto simp: GetStages_SD_def)
  from f have "\<forall>s \<in> set stages. count s = Suc (lastId s) - firstId s"
    by (simp add: fresh_stage_def)
  from partitions_counts [OF p this] have "sum_list (map count stages) = length rows"
    by simp
  moreover have "\<forall>s \<in> set stages. lastId s < length rows"
    using partitions_bounds [OF p] by blast
  ultimately show ?thesis using g p by blast
qed

lemma GetStages_gen_covers:
  assumes "rows \<noteq> []"
  shows "\<exists>stages. GetStages_gen ext hasStages rows = Inr stages
           \<and> covers_indices stages (length rows)
           \<and> sum_list (map count stages) = length rows"
proof -
  from GetStages_gen_partitions [OF assms, of ext hasStages]
  obtain stages where g: "GetStages_gen ext hasStages rows = Inr stages"
    and p: "partitions 0 stages (length rows)"
    and f: "\<forall>s \<in> set stages. fresh_stage ext s"
    by blast
  from f have "\<forall>s \<in> set stages. count s = Suc (lastId s) - firstId s"
    by (simp add: fresh_stage_def)
  from partitions_counts [OF p this] have "sum_list (map count stages) = length rows"
    by simp
  with g covers_indicesI [OF p] show ?thesis by blast
qed

lemma update_SD_steps:
  assumes "rows \<noteq> []"
    and "useSDSubGroups vm \<and> hasStages \<longrightarrow> (\<forall>row \<in> set rows. snd row \<notin> set inherited_keys)"
  shows "\<exists>stages ch points.
           GetStages_SD hasStages rows = Inr stages
           \<and> partitions 0 stages (length rows)
           \<and> sum_list (map count stages) = length rows
           \<and> (\<forall>s \<in> set stages. count s = Suc (lastId s) - firstId s)
           \<and> CalcStats_SD (vm\<lparr>dataPoints := map fst rows\<rparr>) stages = Inr ch
           \<and> update_SD vm hasStages rows
               = Inr (Some \<lparr>viewModel = vm\<lparr>dataPoints := map fst rows\<rparr>, chart = ch,
                             flagged = points\<rparr>)"
proof -
  let ?vm = "vm\<lparr>dataPoints := map fst rows\<rparr>"
  from GetStages_gen_partitions [OF assms(1), of "Stage_SD.fields (Num 0)" hasStages]
  obtain stages where g: "GetStages_SD hasStages rows = Inr stages"
    and p: "partitions 0 stages (length rows)"
    and f: "\<forall>s \<in> set stages. fresh_stage (Stage_SD.fields (Num 0)) s"
    by (auto simp: GetStages_SD_def)
  from f have fc: "\<forall>s \<in> set stages. count s = Suc (lastId s) - firstId s"
    by (simp add: fresh_stage_def)
  from partitions_counts [OF p this] have c: "sum_list (map count stages) = length rows"
    by simp
  have b: "\<forall>s \<in> set stages. lastId s < length rows"
    using partitions_bounds [OF p] by blast
  have inr: "\<forall>s \<in> set stages. lastId s < length (dataPoints ?vm)"
    using b by simp
  have "\<exists>ch. CalcStats_SD ?vm stages = Inr ch"
  proof (cases "useSDSubGroups vm")
    case False
    then show ?thesis using CalcStats_SD_total [of ?vm stages] inr by simp
  next
    case True
    have "\<forall>row \<in> set rows. (if hasStages then snd row else []) \<notin> set inherited_keys"
      using assms(2) True by (cases hasStages) (simp_all add: inherited_keys_def)
    from GetStages_gen_labels [OF g [unfolded GetStages_SD_def], of "\<lambda>l. l \<notin> set inherited_keys"] this
    have "\<forall>s \<in> set stages. stage s \<notin> set inherited_keys" by blast
    from CalcStats_SD_total_subgroups [OF this inr] show ?thesis .
  qed
  then obtain ch where calc: "CalcStats_SD ?vm stages = Inr ch" ..
  from CalcStats_SD_ids [OF calc] have ids: "map lastId (chartStages ch) = map lastId stages"
    by simp
  have "\<forall>s \<in> set (chartStages ch). lastId s < length (dataPoints ?vm)"
  proof
    fix s assume "s \<in> set (chartStages ch)"
    then have "lastId s \<in> set (map lastId (chartStages ch))" by simp
    with ids have "lastId s \<in> lastId ` set stages" by simp
    with b show "lastId s < length (dataPoints ?vm)" by auto
  qed
  from ApplyRules_total [OF this] obtain points where
    a: "ApplyRules ?vm (chartStages ch) = Inr points" by blast
  have "update_SD vm hasStages rows = Inr (Some \<lparr>viewModel = ?vm, chart = ch, flagged = points\<rparr>)"
    using assms(1) g calc a by (simp add: update_SD_def runs_engine_def Let_def)
  with g p c fc calc show ?thesis by blast
qed

lemma update_SD_covers:
  assumes "rows \<noteq> []"
    and "useSDSubGroups vm \<and> hasStages \<longrightarrow> (\<forall>row \<in> set rows. snd row \<notin> set inherited_keys)"
  shows "\<exists>r. update_SD vm hasStages rows = Inr (Some r)
           \<and> covers_indices (chartStages (chart r)) (length rows)
           \<and> (\<not> useSDSubGroups vm \<longrightarrow> sum_list (map count (chartStages (chart r))) = length rows)
           \<and> (useSDSubGroups vm \<longrightarrow>
                (\<forall>k < length (chartStages (chart r)).
                   count (chartStages (chart r) ! k)
                     = label_points (chartStages (chart r)) (stage (chartStages (chart r) ! k))))"
proof -
  let ?vm = "vm\<lparr>dataPoints := map fst rows\<rparr>"
  from update_SD_steps [OF assms] obtain stages ch points where
    p: "partitions 0 stages (length rows)" and
    c: "sum_list (map count stages) = length rows" and
    fc: "\<forall>s \<in> set stages. count s = Suc (lastId s) - firstId s" and
    calc: "CalcStats_SD ?vm stages = Inr ch" and
    u: "update_SD vm hasStages rows
          = Inr (Some \<lparr>viewModel = ?vm, chart = ch, flagged = points\<rparr>)"
    by blast
  from CalcStats_SD_ids [OF calc] have ids: "map firstId (chartStages ch) = map firstId stages"
    "map lastId (chartStages ch) = map lastId stages"
    "\<not> useSDSubGroups vm \<longrightarrow> map count (chartStages ch) = map count stages"
    by simp_all
  have cov: "covers_indices (chartStages ch) (length rows)"
    using ids(1,2) p by (rule covers_indices_cong)
  have plain: "\<not> useSDSubGroups vm \<longrightarrow> sum_list (map count (chartStages ch)) = length rows"
    using ids(3) c by simp
  have agg: "useSDSubGroups vm \<longrightarrow>
      (\<forall>k < length (chartStages ch).
         count (chartStages ch ! k) = label_points (chartStages ch) (stage (chartStages ch ! k)))"
  proof (intro impI allI)
    fix k
    assume on: "useSDSubGroups vm" and k: "k < length (chartStages ch)"
    have "useSDSubGroups ?vm" using on by simp
    from CalcStats_SD_counts [OF this calc]
    have cnt: "map count (chartStages ch) = map (\<lambda>s. label_count stages (stage s)) stages"
      and lab: "map stage (chartStages ch) = map stage stages" by simp_all
    from lab have len: "length (chartStages ch) = length stages"
      by (metis length_map)
    have "count (chartStages ch ! k) = map count (chartStages ch) ! k"
      using k by simp
    also have "\<dots> = label_count stages (stage (stages ! k))"
      using cnt k len by simp
    also have "stage (stages ! k) = stage (chartStages ch ! k)"
      using lab k len by (metis nth_map)
    also have "label_count stages (stage (chartStages ch ! k))
        = label_points stages (stage (chartStages ch ! k))"
      using fc by (rule label_count_points)
    also have "\<dots> = label_points (chartStages ch) (stage (chartStages ch ! k))"
      using lab ids(1,2) by (intro label_points_cong [symmetric]) simp_all
    finally show "count (chartStages ch ! k)
        = label_points (chartStages ch) (stage (chartStages ch ! k))" .
  qed
  from u cov plain agg show ?thesis by simp
qed

text \<open>
  A stage label that every object inherits as a member name makes the refresh with
  subgroup aggregation throw: \<open>GetUnique\<close> finds \<open>unique[label]\<close> defined and no subgroup
  with this label.
\<close>

lemma inherited_label_throws:
  "update_SD
     \<lparr>dataPoints = [], runRule1 = False, runRule2 = False, runRule3 = False,
      standardDeviation = 3, useSDSubGroups = True\<rparr>
     True (labelled [(1, ''constructor'')]) = Inl TypeError"
  by (simp add: eval_update_SD)

subsection \<open>Stage partition\<close>

text \<open>
  C3, at an input where it fails: with subgroup aggregation switched on, the series of
  three points with the stage labels a, b, a is cut into three stages of one point each,
  but the first and the last stage both carry the count 2 of their shared label, so the
  counts sum to 5 and not to the number 3 of data points.
\<close>

theorem stage_counts_subgroups_counterexample:
  "\<exists>r. update_SD
          \<lparr>dataPoints = [], runRule1 = False, runRule2 = False, runRule3 = False,
           standardDeviation = 3, useSDSubGroups = True\<rparr>
          True (labelled [(1, ''a''), (2, ''b''), (3, ''a'')]) = Inr (Some r)
       \<and> map count (chartStages (chart r)) = [2, 1, 2]
       \<and> length (labelled [(1, ''a''), (2, ''b''), (3, ''a'')]) = 3
       \<and> sum_list (map count (chartStages (chart r)))
           \<noteq> length (labelled [(1, ''a''), (2, ''b''), (3, ''a'')])"
  by (simp add: eval_update_SD)

text \<open>
  C3: for a non-empty series the stages cover the indices of the data points without gaps
  and without overlaps, every index lying in exactly one stage, and the counts sum to the
  number of data points: straight after the segmentation, after a refresh of the
  moving-range version (window resolved, at least 2), and after a refresh of the
  standard-deviation version without subgroup aggregation. With subgroup aggregation,
  provided that no stage label of the series is a member name inherited by every object,
  the refresh returns stages that cover the indices in the same way, and the count of
  every stage is the number of points in all the stages that carry its label.
\<close>

theorem stages_cover_series:
  assumes "rows \<noteq> []"
  shows "(\<exists>stages. GetStages hasStages rows = Inr stages
            \<and> covers_indices stages (length rows)
            \<and> sum_list (map count stages) = length rows)
       \<and> (\<exists>stages. GetStages_SD hasStages rows = Inr stages
            \<and> covers_indices stages (length rows)
            \<and> sum_list (map count stages) = length rows)
       \<and> (2 \<le> movingRange vm \<longrightarrow>
            (\<exists>r. update vm hasStages rows = Inr (Some r)
               \<and> covers_indices (chartStages (chart r)) (length rows)
               \<and> sum_list (map count (chartStages (chart r))) = length rows))
       \<and> (\<not> useSDSubGroups vs \<longrightarrow>
            (\<exists>r. update_SD vs hasStages rows = Inr (Some r)
               \<and> covers_indices (chartStages (chart r)) (length rows)
               \<and> sum_list (map count (chartStages (chart r))) = length rows))
       \<and> (useSDSubGroups vs
            \<and> (hasStages \<longrightarrow> (\<forall>row \<in> set rows. snd row \<notin> set inherited_keys)) \<longrightarrow>
            (\<exists>r. update_SD vs hasStages rows = Inr (Some r)
               \<and> covers_indices (chartStages (chart r)) (length rows)
               \<and> (\<forall>k < length (chartStages (chart r)).
                     count (chartStages (chart r) ! k)
                       = label_points (chartStages (chart r))
                           (stage (chartStages (chart r) ! k)))))"
proof (intro conjI impI)
  show "\<exists>stages. GetStages hasStages rows = Inr stages
            \<and> covers_indices stages (length rows)
            \<and> sum_list (map count stages) = length rows"
    unfolding GetStages_def using assms by (rule GetStages_gen_covers)
next
  show "\<exists>stages. GetStages_SD hasStages rows = Inr stages
            \<and> covers_indices stages (length rows)
            \<and> sum_list (map count stages) = length rows"
    unfolding GetStages_SD_def using assms by (rule GetStages_gen_covers)
next
  assume "2 \<le> movingRange vm"
  with assms show "\<exists>r. update vm hasStages rows = Inr (Some r)
               \<and> covers_indices (chartStages (chart r)) (length rows)
               \<and> sum_list (map count (chartStages (chart r))) = length rows"
    by (rule update_covers)
next
  assume off: "\<not> useSDSubGroups vs"
  then have "useSDSubGroups vs \<and> hasStages \<longrightarrow>
      (\<forall>row \<in> set rows. snd row \<notin> set inherited_keys)" by simp
  from update_SD_covers [OF assms this] off
  show "\<exists>r. update_SD vs hasStages rows = Inr (Some r)
               \<and> covers_indices (chartStages (chart r)) (length rows)
               \<and> sum_list (map count (chartStages (chart r))) = length rows"
    by blast
next
  assume on: "useSDSubGroups vs
            \<and> (hasStages \<longrightarrow> (\<forall>row \<in> set rows. snd row \<notin> set inherited_keys))"
  then have "useSDSubGroups vs \<and> hasStages \<longrightarrow>
      (\<forall>row \<in> set rows. snd row \<notin> set inherited_keys)" by simp
  from update_SD_covers [OF assms this] on
  show "\<exists>r. update_SD vs hasStages rows = Inr (Some r)
               \<and> covers_indices (chartStages (chart r)) (length rows)
               \<and> (\<forall>k < length (chartStages (chart r)).
                     count (chartStages (chart r) ! k)
                       = label_points (chartStages (chart r))
                           (stage (chartStages (chart r) ! k)))"
    by blast
qed

theorem stages_cover_series_witness:
  "(\<exists>stages. GetStages True (labelled [(1, ''a''), (2, ''b''), (3, ''a'')]) = Inr stages
      \<and> covers_indices stages 3 \<and> sum_list (map count stages) = 3)
   \<and> (\<exists>stages. GetStages_SD True (labelled [(1, ''a''), (2, ''b''), (3, ''a'')]) = Inr stages
      \<and> covers_indices stages 3 \<and> sum_list (map count stages) = 3)
   \<and> (\<exists>r. update
            \<lparr>dataPoints = [], runRule1 = False, runRule2 = False, runRule3 = False,
             standardDeviations = 3, movingRange = 2, vm_mRError = False\<rparr>
            True (labelled [(1, ''a''), (2, ''b''), (3, ''a'')]) = Inr (Some r)
         \<and> covers_indices (chartStages (chart r)) 3
         \<and> sum_list (map count (chartStages (chart r))) = 3)
   \<and> (\<exists>r. update_SD
            \<lparr>dataPoints = [], runRule1 = False, runRule2 = False, runRule3 = False,
             standardDeviation = 3, useSDSubGroups = False\<rparr>
            True (labelled [(1, ''a''), (2, ''b''), (3, ''a'')]) = Inr (Some r)
         \<and> covers_indices (chartStages (chart r)) 3
         \<and> sum_list (map count (chartStages (chart r))) = 3)
   \<and> (\<exists>r. update_SD
            \<lparr>dataPoints = [], runRule1 = False, runRule2 = False, runRule3 = False,
             standardDeviation = 3, useSDSubGroups = True\<rparr>
            True (labelled [(1, ''a''), (2, ''b''), (3, ''a'')]) = Inr (Some r)
         \<and> covers_indices (chartStages (chart r)) 3
         \<and> (\<forall>k < length (chartStages (chart r)).
               count (chartStages (chart r) ! k)
                 = label_points (chartStages (chart r)) (stage (chartStages (chart r) ! k))))"
proof -
  let ?rows = "labelled [(1, ''a''), (2, ''b''), (3, ''a'')]"
  let ?vm = "\<lparr>dataPoints = [], runRule1 = False, runRule2 = False, runRule3 = False,
             standardDeviations = 3, movingRange = 2, vm_mRError = False\<rparr>
             :: ChartDataPoint ViewModel_MR"
  let ?vs = "\<lparr>dataPoints = [], runRule1 = False, runRule2 = False, runRule3 = False,
             standardDeviation = 3, useSDSubGroups = False\<rparr>
             :: ChartDataPoint ViewModel_SD"
  let ?va = "\<lparr>dataPoints = [], runRule1 = False, runRule2 = False, runRule3 = False,
             standardDeviation = 3, useSDSubGroups = True\<rparr>
             :: ChartDataPoint ViewModel_SD"
  have ne: "?rows \<noteq> []" by (simp add: labelled_def)
  have len: "length ?rows = 3" by (simp add: labelled_def)
  have labels: "\<forall>row \<in> set ?rows. snd row \<notin> set inherited_keys"
    by (simp add: labelled_def inherited_keys_def upt_rec numeral_eq_Suc)
  note t = stages_cover_series [OF ne, of True ?vm ?vs, unfolded len]
  note t' = stages_cover_series [OF ne, of True ?vm ?va, unfolded len]
  from t have a0: "\<exists>stages. GetStages True ?rows = Inr stages
      \<and> covers_indices stages 3 \<and> sum_list (map count stages) = 3"
    by (rule conjunct1)
  from t [THEN conjunct2] have a: "\<exists>stages. GetStages_SD True ?rows = Inr stages
      \<and> covers_indices stages 3 \<and> sum_list (map count stages) = 3"
    by (rule conjunct1)
  from t have b: "\<exists>r. update ?vm True ?rows = Inr (Some r)
         \<and> covers_indices (chartStages (chart r)) 3
         \<and> sum_list (map count (chartStages (chart r))) = 3"
    by simp
  from t have c: "\<exists>r. update_SD ?vs True ?rows = Inr (Some r)
         \<and> covers_indices (chartStages (chart r)) 3
         \<and> sum_list (map count (chartStages (chart r))) = 3"
    by simp
  from t' [THEN conjunct2, THEN conjunct2, THEN conjunct2, THEN conjunct2] labels
  have d: "\<exists>r. update_SD ?va True ?rows = Inr (Some r)
         \<and> covers_indices (chartStages (chart r)) 3
         \<and> (\<forall>k < length (chartStages (chart r)).
               count (chartStages (chart r) ! k)
                 = label_points (chartStages (chart r)) (stage (chartStages (chart r) ! k)))"
    by simp
  from a0 a b c d show ?thesis by (intro conjI)
qed

subsection \<open>Limits without subgroups\<close>

lemma sd_of_Num:
  assumes "0 \<le> S" and "2 \<le> c"
  shows "sd_of S c = Num (sqrt (S / (if c > 8 then real c else real c - 1)))"
proof -
  from assms(2) have c: "2 \<le> real c" by simp
  then have "0 < real c" and "0 < real c - 1" by simp_all
  with assms(1) have "\<not> S / real c < 0" and "\<not> S / (real c - 1) < 0"
    by (simp_all add: not_less)
  with c show ?thesis by (simp add: sd_of_def number_div_def)
qed

lemma sd_first_plain:
  assumes "\<not> useSDSubGroups vm" and "lastId s < length (dataPoints vm)"
  shows "sd_first vm s subGroups = Inr (s\<lparr>sumY := sum_squares vm s\<rparr>, subGroups)"
proof -
  have "\<forall>j \<in> set (stage_indices s). j < length (dataPoints vm)"
    using assms(2) by (auto simp: stage_indices_def)
  from sumdiff_loop_sum [OF this] assms(1) show ?thesis
    by (simp add: sd_first_def sum_squares_def value_at_def)
qed

lemma sd_first_loop_plain:
  assumes "\<not> useSDSubGroups vm" and "\<forall>s \<in> set stages. lastId s < length (dataPoints vm)"
  shows "sd_first_loop vm stages (acc, subGroups)
           = Inr (acc @ map (\<lambda>s. s\<lparr>sumY := sum_squares vm s\<rparr>) stages, subGroups)"
  using assms(2)
  by (induction stages arbitrary: acc) (simp_all add: sd_first_plain [OF assms(1)])

lemma sd_second_plain:
  assumes "\<not> useSDSubGroups vm"
  shows "sd_second vm subGroups (s\<lparr>sumY := sum_squares vm s\<rparr>) = Inr (sd_limits vm s)"
  using assms by (simp add: sd_second_def sd_limits_def)

lemma sd_second_loop_plain:
  assumes "\<not> useSDSubGroups vm"
  shows "\<exists>ch'. sd_second_loop vm subGroups prev (map (\<lambda>s. s\<lparr>sumY := sum_squares vm s\<rparr>) stages) ch
                 = Inr ch'
           \<and> chartStages ch' = chartStages ch @ map (sd_limits vm) stages"
proof (induction stages arbitrary: prev ch)
  case Nil
  then show ?case by simp
next
  case (Cons s stages)
  let ?ch = "\<lparr>chartStages = chartStages ch @ [sd_limits vm s],
             meanLine = meanLine ch @ [mean_segment prev (sd_limits vm s)],
             uclLines = uclLines ch @ [limit_segment prev (sd_limits vm s) (uCL (sd_limits vm s))],
             lclLines = lclLines ch @ [limit_segment prev (sd_limits vm s) (lCL (sd_limits vm s))],
             stageDividers = stageDividers ch @ [divider_of prev (sd_limits vm s)]\<rparr>"
  from Cons.IH [of "Some (sd_limits vm s)" ?ch] show ?case
    by (simp add: sd_second_plain [OF assms])
qed

lemma CalcStats_SD_plain:
  assumes "\<not> useSDSubGroups vm" and "\<forall>s \<in> set stages. lastId s < length (dataPoints vm)"
  shows "\<exists>ch. CalcStats_SD vm stages = Inr ch \<and> chartStages ch = map (sd_limits vm) stages"
  using sd_second_loop_plain [OF assms(1), of "[]" None stages
          "\<lparr>chartStages = [], meanLine = [], uclLines = [], lclLines = [], stageDividers = []\<rparr>"]
  by (simp add: CalcStats_SD_def assms(1) sd_first_loop_plain [OF assms])

lemma sum_squares_nonneg: "0 \<le> sum_squares vm s"
  unfolding sum_squares_def by (rule sum_list_nonneg) auto

subsection \<open>Limits from the standard deviation\<close>

text \<open>
  C1, at an input where it fails: with subgroup aggregation switched on (the default), no
  stage column and 3 standard deviations, the values 1, 2, 3 have the mean 2 and the
  squared deviations 1, 0, 1, which sum to 2, so the stated formula gives the
  standard deviation sqrt (2 / 2) = 1 and the limits 5 and -1. The refresh returns the
  standard deviation 2 and the limits 8 and -4: the squared deviations are added to the
  subgroup's sum of the values, 6, so the root is taken of 8 / 2. Without aggregation the
  same input gives the standard deviation 1 and the limits 5 and -1.
\<close>

theorem subgroup_sd_adds_to_value_sum:
  "(\<exists>r. update_SD
          \<lparr>dataPoints = [], runRule1 = False, runRule2 = False, runRule3 = False,
           standardDeviation = 3, useSDSubGroups = True\<rparr>
          False (series [1, 2, 3]) = Inr (Some r)
       \<and> map mean (chartStages (chart r)) = [2]
       \<and> map count (chartStages (chart r)) = [3]
       \<and> map sd (chartStages (chart r)) = [Num 2]
       \<and> map uCL (chartStages (chart r)) = [Num 8]
       \<and> map lCL (chartStages (chart r)) = [Num (- 4)])
   \<and> (1 - 2) * (1 - 2) + (2 - 2) * (2 - 2) + (3 - 2) * (3 - 2) = (2 :: real)
   \<and> sd_of 2 3 = Num 1
   \<and> (\<exists>r. update_SD
          \<lparr>dataPoints = [], runRule1 = False, runRule2 = False, runRule3 = False,
           standardDeviation = 3, useSDSubGroups = False\<rparr>
          False (series [1, 2, 3]) = Inr (Some r)
       \<and> map sd (chartStages (chart r)) = [Num 1]
       \<and> map uCL (chartStages (chart r)) = [Num 5]
       \<and> map lCL (chartStages (chart r)) = [Num (- 1)])"
  by (simp add: eval_update_SD)

section \<open>Properties of the entry of a refresh\<close>

text \<open>
  Without a data view or without a categorical part the refresh throws, in both
  versions. With a categorical part that lacks the category columns or the value
  columns it ends without a computation, as it does when the first category column has
  no source.
\<close>

lemma update_entry_no_data_view:
  assumes "dataViews = None \<or> dataViews = Some []
           \<or> (\<exists>dv rest. dataViews = Some (dv # rest) \<and> categorical dv = None)"
  shows "update_entry dataViews = Inl TypeError" and "update_entry_SD dataViews = Inl TypeError"
  using assms by (auto simp: update_entry_def update_entry_SD_def)

lemma update_entry_no_columns:
  assumes "dataViews = Some (dv # rest)" and "categorical dv = Some cat"
    and "categories cat = None \<or> value_columns cat = None"
  shows "update_entry dataViews = Inr None" and "update_entry_SD dataViews = Inr None"
  using assms by (auto simp: update_entry_def update_entry_SD_def)

lemma update_entry_no_source:
  assumes "dataViews = Some (dv # rest)" and "categorical dv = Some cat"
    and "categories cat = Some (category # cs)" and "source category = None"
  shows "update_entry dataViews = Inr None" and "update_entry_SD dataViews = Inr None"
  using assms
  by (auto simp: update_entry_def update_entry_SD_def visualTransform_def
        visualTransform_SD_def runs_engine_def neutral_MR_def neutral_SD_def)

text \<open>
  The moving-range version ends without a computation when the first position or the
  first value does not pass its test.
\<close>

lemma update_entry_not_accepted:
  assumes "input_sequences dataViews = Some (xs, ys)"
    and "\<not> accepted_positions xs \<or> \<not> accepted_values ys"
  shows "update_entry dataViews = Inr None"
proof -
  from assms(1) obtain dv rest cat category cs dataValue vs where
    parts: "dataViews = Some (dv # rest)" "categorical dv = Some cat"
      "categories cat = Some (category # cs)"
      "value_columns cat = Some (dataValue # vs)" "source category \<noteq> None"
      "xs = category_values category" "ys = column_values dataValue"
    by (auto simp: input_sequences_def split: option.splits list.splits if_splits)
  have "visualTransform dataViews = Inr neutral_MR"
    using assms(2) parts
    by (auto simp: visualTransform_def accepted_positions_def accepted_values_def
          truthy_accepted_position truthy_accepted_value Let_def
        split: list.splits)
  with parts show ?thesis
    by (simp add: update_entry_def runs_engine_def neutral_MR_def)
qed

text \<open>
  C6, at inputs where it fails: when the host passes no data view (an empty list of data
  views), or a data view without a categorical part, the refresh of either version
  throws a TypeError at its first statement, \<open>options.dataViews[0].categorical\<close>,
  before any test is made; the exception surfaces and no neutral result is returned. In
  the standard-deviation version a position of an unsupported type is not rejected:
  for the position "x" with the value "y" the computation runs on this data point,
  where the moving-range version ends without a computation. In the moving-range
  version only the first position is tested: for the positions 1, "x" with the values
  1, 2 the computation runs on both data points.
\<close>

theorem refresh_without_data_view_throws:
  "update_entry (Some []) = Inl TypeError
   \<and> update_entry_SD (Some []) = Inl TypeError
   \<and> update_entry (Some [no_categorical]) = Inl TypeError
   \<and> update_entry_SD (Some [no_categorical]) = Inl TypeError
   \<and> (\<exists>vm. update_entry_SD (data_view [PString ''x''] [PString ''y'']) = Inr (Some vm)
         \<and> dataPoints vm = [\<lparr>xValue = PString ''x'', yValue = PString ''y''\<rparr>])
   \<and> update_entry (data_view [PString ''x''] [PString ''y'']) = Inr None
   \<and> (\<exists>vm. update_entry (data_view [PNumber 1, PString ''x''] [PNumber 1, PNumber 2])
            = Inr (Some vm)
         \<and> dataPoints vm = [\<lparr>xValue = PNumber 1, yValue = PNumber 1\<rparr>,
                            \<lparr>xValue = PString ''x'', yValue = PNumber 2\<rparr>])"
  by (simp add: update_entry_def update_entry_SD_def no_categorical_def data_view_def
        view_of_def no_objects_def visualTransform_def visualTransform_SD_def
        fill_points_def at_index_def runs_engine_def neutral_MR_def getValue_def Let_def
        upt_rec)

end
